theory Spec2Isabelle
  imports Complex_Main "HOL-Library.Sublist" "HOL-Library.AList"
begin

unbundle bit_operations_syntax

section \<open>The xDS resolver: data model\<close>

text \<open>
  The resolver (the source file whose class is \<open>XdsResolver\<close>) consumes route
  configurations. The generated protobuf types are not part of the sources; the records
  below carry exactly the fields the resolver reads. A protobuf \<open>oneof\<close> (a tag string and
  one populated field) is a datatype whose constructor carries that field; an optional
  wrapper message (\<open>x?.value\<close>) is an \<open>option\<close>.
\<close>

text \<open>JavaScript string methods used by the resolver, on \<open>string\<close> (a list of characters).\<close>

definition startsWith :: "string \<Rightarrow> string \<Rightarrow> bool" where
  "startsWith s p = prefix p s"

definition endsWith :: "string \<Rightarrow> string \<Rightarrow> bool" where
  "endsWith s p = suffix p s"

text \<open>\<open>s.substring(1)\<close> and \<open>s.substring(0, s.length - 1)\<close>.\<close>

definition substring_from1 :: "string \<Rightarrow> string" where
  "substring_from1 s = drop 1 s"

definition substring_but_last :: "string \<Rightarrow> string" where
  "substring_but_last s = take (length s - 1) s"

text \<open>\<open>Array.prototype.join\<close> with a separator.\<close>

fun join :: "string \<Rightarrow> string list \<Rightarrow> string" where
  "join sep [] = []"
| "join sep [x] = x"
| "join sep (x # y # ys) = x @ sep @ join sep (y # ys)"

text \<open>
  \<open>String.prototype.toLowerCase\<close>, on the ASCII letters (the characters of method names
  and paths); other characters are left as they are.
\<close>

definition lower_char :: "char \<Rightarrow> char" where
  "lower_char c =
     (if (65::nat) \<le> of_char c \<and> of_char c \<le> (90::nat) then char_of (of_char c + (32::nat)) else c)"

definition toLowerCase :: "string \<Rightarrow> string" where
  "toLowerCase s = map lower_char s"

datatype HeaderMatchSpecifier =
    exact_match string
  | safe_regex_match string
  | range_match int int
  | present_match
  | prefix_match string
  | suffix_match string
  | other_header_match

record HeaderMatcher =
  name :: string
  header_match_specifier :: HeaderMatchSpecifier
  invert_match :: bool

datatype PathSpecifier =
    prefix_specifier string
  | path_specifier_path string
  | safe_regex string
  | other_path_specifier

datatype Denominator = HUNDRED | TEN_THOUSAND | MILLION

record FractionalPercent =
  numerator :: nat
  denominator :: Denominator

text \<open>
  \<open>runtime_fraction\<close> is \<open>Some\<close> when \<open>routeMatch.runtime_fraction?.default_value\<close> is
  present, and then holds that default value.
\<close>

record RouteMatch =
  path_specifier :: PathSpecifier
  case_sensitive :: "bool option"
  headers :: "HeaderMatcher list"
  runtime_fraction :: "FractionalPercent option"

record ClusterWeight =
  cw_name :: string
  weight :: "nat option"

datatype ClusterSpecifier =
    cluster_header string
  | cluster string
  | weighted_clusters "ClusterWeight list" "nat option"

record Route =
  match :: "RouteMatch option"
  route :: "ClusterSpecifier option"

record VirtualHost =
  domains :: "string list"
  routes :: "Route list"

record RouteConfiguration =
  virtual_hosts :: "VirtualHost list"

text \<open>
  Call metadata, as far as the two files read it: \<open>metadata.get(name)\<close> (all values of a
  header) and \<open>metadata.getOptions().waitForReady\<close>.
\<close>

record Metadata =
  get :: "string \<Rightarrow> string list"
  waitForReady :: bool

definition new_Metadata :: Metadata where
  "new_Metadata = \<lparr>get = (\<lambda>k. []), waitForReady = False\<rparr>"

text \<open>The gRPC status codes (\<open>enum Status\<close>) and \<open>StatusObject\<close>.\<close>

datatype Status =
    OK | CANCELLED | UNKNOWN | INVALID_ARGUMENT | DEADLINE_EXCEEDED | NOT_FOUND
  | ALREADY_EXISTS | PERMISSION_DENIED | RESOURCE_EXHAUSTED | FAILED_PRECONDITION
  | ABORTED | OUT_OF_RANGE | UNIMPLEMENTED | INTERNAL | UNAVAILABLE | DATA_LOSS
  | UNAUTHENTICATED

record StatusObject =
  code :: Status
  details :: string
  status_metadata :: Metadata

text \<open>What a JavaScript statement can throw in the modelled code.\<close>

datatype js_error = TypeError | RegexSyntaxError | Error string

text \<open>
  What the resolver file takes from outside the sources: the environment flag
  \<open>GRPC_XDS_EXPERIMENTAL_ROUTING\<close>, the RE2 constructor (pattern and flags; \<open>None\<close> when it
  throws on a malformed pattern, otherwise the compiled expression's \<open>test\<close>), and
  \<open>uriToString\<close>.
\<close>

record GrpcUri =
  scheme :: "string option"
  authority :: "string option"
  path :: string

record env =
  GRPC_XDS_EXPERIMENTAL_ROUTING :: bool
  RE2 :: "string \<Rightarrow> string \<Rightarrow> (string \<Rightarrow> bool) option"
  uriToString :: "GrpcUri \<Rightarrow> string"

section \<open>Domain matcher\<close>

text \<open>\<open>enum MatchType\<close>: "Better match type has smaller value."\<close>

datatype MatchType = EXACT_MATCH | SUFFIX_MATCH | PREFIX_MATCH | UNIVERSE_MATCH | INVALID_MATCH

fun MatchType_value :: "MatchType \<Rightarrow> nat" where
  "MatchType_value EXACT_MATCH = 0"
| "MatchType_value SUFFIX_MATCH = 1"
| "MatchType_value PREFIX_MATCH = 2"
| "MatchType_value UNIVERSE_MATCH = 3"
| "MatchType_value INVALID_MATCH = 4"

definition domainPatternMatchType :: "string \<Rightarrow> MatchType" where
  "domainPatternMatchType domainPattern =
     (if length domainPattern = 0 then INVALID_MATCH
      else if CHR ''*'' \<notin> set domainPattern then EXACT_MATCH
      else if domainPattern = ''*'' then UNIVERSE_MATCH
      else if startsWith domainPattern ''*'' then SUFFIX_MATCH
      else if endsWith domainPattern ''*'' then PREFIX_MATCH
      else INVALID_MATCH)"

fun domainMatch :: "MatchType \<Rightarrow> string \<Rightarrow> string \<Rightarrow> bool" where
  "domainMatch EXACT_MATCH domainPattern expectedHostName = (expectedHostName = domainPattern)"
| "domainMatch SUFFIX_MATCH domainPattern expectedHostName =
     endsWith expectedHostName (substring_from1 domainPattern)"
| "domainMatch PREFIX_MATCH domainPattern expectedHostName =
     startsWith expectedHostName (substring_but_last domainPattern)"
| "domainMatch UNIVERSE_MATCH domainPattern expectedHostName = True"
| "domainMatch INVALID_MATCH domainPattern expectedHostName = False"

text \<open>The three local variables of \<open>findVirtualHostForDomain\<close>.\<close>

record scan_state =
  targetVhost :: "VirtualHost option"
  bestMatchType :: MatchType
  longestMatch :: nat

text \<open>
  The inner loop over \<open>virtualHost.domains\<close>. A \<open>continue\<close> goes on with the rest of
  the patterns without reaching the \<open>break\<close> test; the \<open>break\<close> returns the state at once.
\<close>

fun scan_domains :: "VirtualHost \<Rightarrow> string \<Rightarrow> string list \<Rightarrow> scan_state \<Rightarrow> scan_state" where
  "scan_domains virtualHost domain [] st = st"
| "scan_domains virtualHost domain (domainPattern # rest) st =
     (let matchType = domainPatternMatchType domainPattern in
      if MatchType_value matchType > MatchType_value (bestMatchType st)
        then scan_domains virtualHost domain rest st
      else if matchType = bestMatchType st \<and> length domainPattern \<le> longestMatch st
        then scan_domains virtualHost domain rest st
      else
        let st' = (if domainMatch matchType domainPattern domain
                   then st\<lparr>targetVhost := Some virtualHost, bestMatchType := matchType,
                           longestMatch := length domainPattern\<rparr>
                   else st)
        in if bestMatchType st' = EXACT_MATCH then st'
           else scan_domains virtualHost domain rest st')"

text \<open>The outer loop over the virtual hosts, with its own \<open>break\<close>.\<close>

fun scan_hosts :: "string \<Rightarrow> VirtualHost list \<Rightarrow> scan_state \<Rightarrow> scan_state" where
  "scan_hosts domain [] st = st"
| "scan_hosts domain (virtualHost # rest) st =
     (let st' = scan_domains virtualHost domain (domains virtualHost) st
      in if bestMatchType st' = EXACT_MATCH then st' else scan_hosts domain rest st')"

definition scan_init :: scan_state where
  "scan_init = \<lparr>targetVhost = None, bestMatchType = INVALID_MATCH, longestMatch = 0\<rparr>"

definition findVirtualHostForDomain :: "VirtualHost list \<Rightarrow> string \<Rightarrow> VirtualHost option" where
  "findVirtualHostForDomain virutalHostList domain =
     targetVhost (scan_hosts domain virutalHostList scan_init)"

section \<open>Predicate compiler\<close>

text \<open>\<open>numberRegex\<close>: an optional minus sign and at least one decimal digit, over the whole string.\<close>

definition is_digit :: "char \<Rightarrow> bool" where
  "is_digit c = ((48::nat) \<le> of_char c \<and> of_char c \<le> (57::nat))"

definition all_digits :: "string \<Rightarrow> bool" where
  "all_digits ds = (ds \<noteq> [] \<and> list_all is_digit ds)"

fun numberRegex_test :: "string \<Rightarrow> bool" where
  "numberRegex_test [] = False"
| "numberRegex_test (c # cs) = (if c = CHR ''-'' then all_digits cs else all_digits (c # cs))"

text \<open>\<open>BigInt(value)\<close> on a string that passed \<open>numberRegex\<close>.\<close>

definition digits_value :: "string \<Rightarrow> int" where
  "digits_value ds = foldl (\<lambda>acc c. acc * 10 + (int (of_char c) - 48)) 0 ds"

fun BigInt :: "string \<Rightarrow> int" where
  "BigInt [] = 0"
| "BigInt (c # cs) = (if c = CHR ''-'' then - digits_value cs else digits_value (c # cs))"

text \<open>
  The \<open>switch\<close> of \<open>getPredicateForHeaderMatcher\<close>: the value checker of a rule.
  \<open>Inr None\<close> is the \<open>default\<close> branch, which returns the constant-false matcher at once;
  \<open>Inl\<close> is the RE2 constructor throwing.
\<close>

fun valueChecker_of :: "env \<Rightarrow> HeaderMatchSpecifier \<Rightarrow> js_error + (string \<Rightarrow> bool) option" where
  "valueChecker_of e (exact_match v) = Inr (Some (\<lambda>value. value = v))"
| "valueChecker_of e (safe_regex_match r) =
     (case RE2 e (''^'' @ r @ ''$'') ''u'' of
        None \<Rightarrow> Inl RegexSyntaxError
      | Some regex \<Rightarrow> Inr (Some (\<lambda>value. regex value)))"
| "valueChecker_of e (range_match start end) =
     Inr (Some (\<lambda>value.
       if \<not> numberRegex_test value then False
       else let numberValue = BigInt value in start \<le> numberValue \<and> numberValue < end))"
| "valueChecker_of e present_match = Inr (Some (\<lambda>value. True))"
| "valueChecker_of e (prefix_match p) = Inr (Some (\<lambda>value. startsWith value p))"
| "valueChecker_of e (suffix_match p) = Inr (Some (\<lambda>value. endsWith value p))"
| "valueChecker_of e other_header_match = Inr None"

text \<open>The closure \<open>headerMatcher\<close>.\<close>

definition headerMatcher :: "HeaderMatcher \<Rightarrow> (string \<Rightarrow> bool) \<Rightarrow> string \<Rightarrow> Metadata \<Rightarrow> bool" where
  "headerMatcher headerMatch valueChecker methodName metadata =
     (if endsWith (name headerMatch) ''-bin'' then False
      else if name headerMatch = ''content-type'' then valueChecker ''application/grpc''
      else let valueArray = get metadata (name headerMatch) in
        if length valueArray = 0 then False
        else valueChecker (join '','' valueArray))"

definition getPredicateForHeaderMatcher ::
    "env \<Rightarrow> HeaderMatcher \<Rightarrow> js_error + (string \<Rightarrow> Metadata \<Rightarrow> bool)" where
  "getPredicateForHeaderMatcher e headerMatch =
     (case valueChecker_of e (header_match_specifier headerMatch) of
        Inl err \<Rightarrow> Inl err
      | Inr None \<Rightarrow> Inr (\<lambda>methodName metadata. False)
      | Inr (Some valueChecker) \<Rightarrow>
          if invert_match headerMatch
          then Inr (\<lambda>methodName metadata. \<not> headerMatcher headerMatch valueChecker methodName metadata)
          else Inr (headerMatcher headerMatch valueChecker))"

fun RUNTIME_FRACTION_DENOMINATOR_VALUES :: "Denominator \<Rightarrow> nat" where
  "RUNTIME_FRACTION_DENOMINATOR_VALUES HUNDRED = 100"
| "RUNTIME_FRACTION_DENOMINATOR_VALUES TEN_THOUSAND = 10000"
| "RUNTIME_FRACTION_DENOMINATOR_VALUES MILLION = 1000000"

text \<open>
  The code draws with \<open>Math.random() * c\<close> for a whole number \<open>c\<close> (a denominator or a total
  weight), a product of IEEE doubles that is rounded to a double. The random source of a
  selection is given as \<open>rnd\<close>: \<open>rnd k c\<close> is the value the \<open>k\<close>-th evaluation of
  \<open>Math.random() * c\<close> returns, whatever the rounding made of it. With it goes the number of
  values drawn so far; a matcher that draws returns the advanced count. A route matcher
  (\<open>interface Matcher\<close>) is then a function of the method name, the metadata, the random
  source and the count.
\<close>

type_synonym Matcher = "string \<Rightarrow> Metadata \<Rightarrow> (nat \<Rightarrow> nat \<Rightarrow> real) \<Rightarrow> nat \<Rightarrow> bool \<times> nat"

text \<open>\<open>routeMatch.headers.map(getPredicateForHeaderMatcher)\<close>: the first throw ends the map.\<close>

fun compile_headers ::
    "env \<Rightarrow> HeaderMatcher list \<Rightarrow> js_error + (string \<Rightarrow> Metadata \<Rightarrow> bool) list" where
  "compile_headers e [] = Inr []"
| "compile_headers e (h # hs) =
     (case getPredicateForHeaderMatcher e h of
        Inl err \<Rightarrow> Inl err
      | Inr m \<Rightarrow> (case compile_headers e hs of Inl err \<Rightarrow> Inl err | Inr ms \<Rightarrow> Inr (m # ms)))"

text \<open>The \<open>switch\<close> on \<open>path_specifier\<close>; \<open>Inr None\<close> is its \<open>default\<close> branch.\<close>

definition case_insensitive :: "RouteMatch \<Rightarrow> bool" where
  "case_insensitive routeMatch = (case_sensitive routeMatch = Some False)"

fun pathMatcher_of ::
    "env \<Rightarrow> RouteMatch \<Rightarrow> PathSpecifier \<Rightarrow> js_error + (string \<Rightarrow> Metadata \<Rightarrow> bool) option" where
  "pathMatcher_of e routeMatch (prefix_specifier p) =
     (if case_insensitive routeMatch
      then Inr (Some (\<lambda>methodName metadata. startsWith (toLowerCase methodName) (toLowerCase p)))
      else Inr (Some (\<lambda>methodName metadata. startsWith methodName p)))"
| "pathMatcher_of e routeMatch (path_specifier_path p) =
     (if case_insensitive routeMatch
      then Inr (Some (\<lambda>methodName metadata. toLowerCase methodName = toLowerCase p))
      else Inr (Some (\<lambda>methodName metadata. methodName = p)))"
| "pathMatcher_of e routeMatch (safe_regex r) =
     (case RE2 e (''^'' @ r @ ''$'') (if case_insensitive routeMatch then ''ui'' else ''u'') of
        None \<Rightarrow> Inl RegexSyntaxError
      | Some regex \<Rightarrow> Inr (Some (\<lambda>methodName metadata. regex methodName)))"
| "pathMatcher_of e routeMatch other_path_specifier = Inr None"

text \<open>\<open>runtimeFractionHandler\<close>: draws only when a fraction is configured.\<close>

definition runtimeFractionHandler ::
    "FractionalPercent option \<Rightarrow> (nat \<Rightarrow> nat \<Rightarrow> real) \<Rightarrow> nat \<Rightarrow> bool \<times> nat" where
  "runtimeFractionHandler fraction rnd n =
     (case fraction of
        None \<Rightarrow> (True, n)
      | Some f \<Rightarrow>
          let randomNumber = rnd n (RUNTIME_FRACTION_DENOMINATOR_VALUES (denominator f))
          in (randomNumber < real (numerator f), Suc n))"

text \<open>The returned closure: \<open>&&\<close> evaluates the fraction handler only after the others passed.\<close>

definition route_predicate ::
    "(string \<Rightarrow> Metadata \<Rightarrow> bool) \<Rightarrow> (string \<Rightarrow> Metadata \<Rightarrow> bool) list
       \<Rightarrow> FractionalPercent option \<Rightarrow> Matcher" where
  "route_predicate pathMatcher headerMatchers fraction methodName metadata rnd n =
     (if pathMatcher methodName metadata \<and> list_all (\<lambda>matcher. matcher methodName metadata) headerMatchers
      then runtimeFractionHandler fraction rnd n
      else (False, n))"

definition getPredicateForMatcher :: "env \<Rightarrow> RouteMatch \<Rightarrow> js_error + Matcher" where
  "getPredicateForMatcher e routeMatch =
     (case pathMatcher_of e routeMatch (path_specifier routeMatch) of
        Inl err \<Rightarrow> Inl err
      | Inr None \<Rightarrow> Inr (\<lambda>methodName metadata rnd n. (False, n))
      | Inr (Some pathMatcher) \<Rightarrow>
          (case compile_headers e (headers routeMatch) of
             Inl err \<Rightarrow> Inl err
           | Inr headerMatchers \<Rightarrow>
               Inr (route_predicate pathMatcher headerMatchers (runtime_fraction routeMatch))))"

section \<open>Route table resolver\<close>

text \<open>
  \<open>clusterRefcounts\<close> is a JavaScript \<open>Map\<close>: an association list in insertion order with
  unique keys. \<open>Map.get\<close> is \<open>map_of\<close>, \<open>Map.set\<close> is \<open>AList.update\<close> (in place for an
  existing key, at the end for a new one), \<open>Map.delete\<close> is \<open>AList.delete\<close>. The values are
  objects shared by reference; a write to a field of an object held by the map is a
  \<open>Map.set\<close> of the changed object at its key.
\<close>

record RefEntry =
  inLastConfig :: bool
  refCount :: int

text \<open>One entry of \<open>clusterChoices\<close>: \<open>{cluster, numerator}\<close>.\<close>

record ClusterChoice =
  choice_cluster :: string
  choice_numerator :: nat

text \<open>A route action \<open>() => string\<close>: it may draw from \<open>Math.random()\<close>.\<close>

type_synonym RouteAction = "(nat \<Rightarrow> nat \<Rightarrow> real) \<Rightarrow> nat \<Rightarrow> string \<times> nat"

datatype LoadBalancingConfig =
    CdsLoadBalancingConfig string
  | XdsClusterManagerLoadBalancingConfig "(string \<times> LoadBalancingConfig list) list"

text \<open>
  The calls the resolver makes on its \<open>ResolverListener\<close>. A successful resolution carries
  the load-balancing configuration and the config selector; the selector closes over the
  resolver and \<open>matchList\<close>, so the event holds \<open>matchList\<close> (\<open>None\<close> for a \<open>null\<close> selector).
\<close>

datatype ResolverEvent =
    onSuccessfulResolution LoadBalancingConfig "(Matcher \<times> RouteAction) list option"
  | onError StatusObject

datatype XdsClientCall =
    addListenerWatcher string
  | removeListenerWatcher string
  | addRouteWatcher string
  | removeRouteWatcher string

record XdsResolver =
  hasReportedSuccess :: bool
  isLdsWatcherActive :: bool
  latestRouteConfigName :: "string option"
  latestRouteConfig :: "RouteConfiguration option"
  clusterRefcounts :: "(string \<times> RefEntry) list"
  target :: GrpcUri
  listener_calls :: "ResolverEvent list"
  xds_client_calls :: "XdsClientCall list"

definition new_XdsResolver :: "GrpcUri \<Rightarrow> XdsResolver" where
  "new_XdsResolver t =
     \<lparr>hasReportedSuccess = False, isLdsWatcherActive = False, latestRouteConfigName = None,
      latestRouteConfig = None, clusterRefcounts = [], target = t,
      listener_calls = [], xds_client_calls = []\<rparr>"

text \<open>A method either returns or throws; both leave a resolver state behind.\<close>

datatype completion = Returns XdsResolver | Throws js_error XdsResolver

fun state_of :: "completion \<Rightarrow> XdsResolver" where
  "state_of (Returns s) = s"
| "state_of (Throws err s) = s"

definition reportResolutionError :: "env \<Rightarrow> string \<Rightarrow> XdsResolver \<Rightarrow> XdsResolver" where
  "reportResolutionError e reason s =
     s\<lparr>listener_calls := listener_calls s @
        [onError \<lparr>code = UNAVAILABLE,
                  details = ''xDS name resolution failed for target '' @ uriToString e (target s)
                            @ '': '' @ reason,
                  status_metadata = new_Metadata\<rparr>]\<rparr>"

text \<open>\<open>Set.add\<close> on the insertion-ordered \<open>allConfigClusters\<close>.\<close>

definition set_add :: "string \<Rightarrow> string list \<Rightarrow> string list" where
  "set_add x xs = (if x \<in> set xs then xs else xs @ [x])"

text \<open>
  The loop over \<open>weighted_clusters.clusters\<close>: the running \<open>lastNumerator\<close>, the choices
  pushed so far and \<open>allConfigClusters\<close>.
\<close>

fun build_choices ::
    "ClusterWeight list \<Rightarrow> nat \<Rightarrow> ClusterChoice list \<Rightarrow> string list
       \<Rightarrow> ClusterChoice list \<times> string list" where
  "build_choices [] lastNumerator clusterChoices allConfigClusters =
     (clusterChoices, allConfigClusters)"
| "build_choices (clusterWeight # rest) lastNumerator clusterChoices allConfigClusters =
     (let allConfigClusters' = set_add (cw_name clusterWeight) allConfigClusters;
          lastNumerator' = lastNumerator + (case weight clusterWeight of Some v \<Rightarrow> v | None \<Rightarrow> 0)
      in build_choices rest lastNumerator'
           (clusterChoices @ [\<lparr>choice_cluster = cw_name clusterWeight,
                               choice_numerator = lastNumerator'\<rparr>])
           allConfigClusters')"

text \<open>The loop of the weighted action; \<open>None\<close> when it runs off the end of the choices.\<close>

fun pick_choice :: "real \<Rightarrow> ClusterChoice list \<Rightarrow> string option" where
  "pick_choice randomNumber [] = None"
| "pick_choice randomNumber (choice # rest) =
     (if randomNumber < real (choice_numerator choice) then Some (choice_cluster choice)
      else pick_choice randomNumber rest)"

definition effective_total_weight :: "nat option \<Rightarrow> nat" where
  "effective_total_weight total_weight = (case total_weight of Some v \<Rightarrow> v | None \<Rightarrow> 100)"

definition weighted_action :: "ClusterChoice list \<Rightarrow> nat option \<Rightarrow> RouteAction" where
  "weighted_action clusterChoices total_weight rnd n =
     (let randomNumber = rnd n (effective_total_weight total_weight)
      in (case pick_choice randomNumber clusterChoices of
            Some c \<Rightarrow> (c, Suc n)
          | None \<Rightarrow> ('''', Suc n)))"

definition cluster_action :: "string \<Rightarrow> RouteAction" where
  "cluster_action c rnd n = (c, n)"

text \<open>
  The loop over \<open>virtualHost.routes\<close> that fills \<open>allConfigClusters\<close> and \<open>matchList\<close>.
  \<open>route.route!\<close> and \<open>route.match!\<close> on a missing field throw a \<open>TypeError\<close> at the
  property read that follows.
\<close>

fun build_routes ::
    "env \<Rightarrow> Route list \<Rightarrow> string list \<Rightarrow> (Matcher \<times> RouteAction) list
       \<Rightarrow> js_error + (string list \<times> (Matcher \<times> RouteAction) list)" where
  "build_routes e [] allConfigClusters matchList = Inr (allConfigClusters, matchList)"
| "build_routes e (r # rest) allConfigClusters matchList =
     (case route r of
        None \<Rightarrow> Inl TypeError
      | Some (cluster_header h) \<Rightarrow> build_routes e rest allConfigClusters matchList
      | Some (cluster c) \<Rightarrow>
          (case match r of
             None \<Rightarrow> Inl TypeError
           | Some m \<Rightarrow>
               (case getPredicateForMatcher e m of
                  Inl err \<Rightarrow> Inl err
                | Inr routeMatcher \<Rightarrow>
                    build_routes e rest (set_add c allConfigClusters)
                      (matchList @ [(routeMatcher, cluster_action c)])))
      | Some (weighted_clusters clusters total_weight) \<Rightarrow>
          (case build_choices clusters 0 [] allConfigClusters of
             (clusterChoices, allConfigClusters') \<Rightarrow>
               (case match r of
                  None \<Rightarrow> Inl TypeError
                | Some m \<Rightarrow>
                    (case getPredicateForMatcher e m of
                       Inl err \<Rightarrow> Inl err
                     | Inr routeMatcher \<Rightarrow>
                         build_routes e rest allConfigClusters'
                           (matchList @ [(routeMatcher, weighted_action clusterChoices total_weight)])))))"

text \<open>
  "Mark clusters that are not in this route config, and remove ones with no references":
  one iteration for an entry \<open>[name, refCount]\<close> of the snapshot
  \<open>Array.from(this.clusterRefcounts.entries())\<close>.
\<close>

definition mark_entry ::
    "string list \<Rightarrow> string \<times> RefEntry \<Rightarrow> (string \<times> RefEntry) list \<Rightarrow> (string \<times> RefEntry) list" where
  "mark_entry allConfigClusters entry tbl =
     (case entry of (nm, refCnt) \<Rightarrow>
        if nm \<notin> set allConfigClusters then
          (let tbl' = AList.update nm (refCnt\<lparr>inLastConfig := False\<rparr>) tbl
           in if refCount refCnt = 0 then AList.delete nm tbl' else tbl')
        else tbl)"

text \<open>"Add any new clusters from this route config": one iteration.\<close>

definition add_cluster :: "string \<Rightarrow> (string \<times> RefEntry) list \<Rightarrow> (string \<times> RefEntry) list" where
  "add_cluster nm tbl =
     (case map_of tbl nm of
        Some refCnt \<Rightarrow> AList.update nm (refCnt\<lparr>inLastConfig := True\<rparr>) tbl
      | None \<Rightarrow> AList.update nm \<lparr>inLastConfig = True, refCount = 0\<rparr> tbl)"

definition reconcile :: "string list \<Rightarrow> (string \<times> RefEntry) list \<Rightarrow> (string \<times> RefEntry) list" where
  "reconcile allConfigClusters tbl =
     fold add_cluster allConfigClusters (fold (mark_entry allConfigClusters) tbl tbl)"

text \<open>\<open>clusterConfigMap\<close>: one CDS child policy for every key of \<open>clusterRefcounts\<close>.\<close>

definition clusterConfigMap :: "(string \<times> RefEntry) list \<Rightarrow> (string \<times> LoadBalancingConfig list) list" where
  "clusterConfigMap tbl = map (\<lambda>(clusterName, refCnt). (clusterName, [CdsLoadBalancingConfig clusterName])) tbl"

text \<open>
  The branch of \<open>handleRouteConfig\<close> without \<open>GRPC_XDS_EXPERIMENTAL_ROUTING\<close>: the loop over
  the virtual hosts. \<open>routes[routes.length - 1]\<close> of an empty list is \<open>undefined\<close>, and
  \<open>route.match\<close> then throws. \<open>route.match?.prefix === ''\<close> holds when the path specifier is
  the empty prefix, \<open>route.route?.cluster\<close> is truthy for a non-empty cluster name.
\<close>

fun legacy_scan :: "env \<Rightarrow> VirtualHost list \<Rightarrow> XdsResolver \<Rightarrow> completion" where
  "legacy_scan e [] s = Returns (reportResolutionError e ''No matching route found'' s)"
| "legacy_scan e (virtualHost # rest) s =
     (if path (target s) \<in> set (domains virtualHost) then
        (if routes virtualHost = [] then Throws TypeError s
         else
           (let r = last (routes virtualHost) in
            case (match r, route r) of
              (Some m, Some (cluster c)) \<Rightarrow>
                if path_specifier m = prefix_specifier '''' \<and> c \<noteq> '''' then
                  Returns (s\<lparr>listener_calls := listener_calls s @
                               [onSuccessfulResolution (CdsLoadBalancingConfig c) None],
                             hasReportedSuccess := True\<rparr>)
                else legacy_scan e rest s
            | _ \<Rightarrow> legacy_scan e rest s))
      else legacy_scan e rest s)"

definition handleRouteConfig :: "env \<Rightarrow> RouteConfiguration \<Rightarrow> XdsResolver \<Rightarrow> completion" where
  "handleRouteConfig e routeConfig s0 =
     (let s = s0\<lparr>latestRouteConfig := Some routeConfig\<rparr> in
      if GRPC_XDS_EXPERIMENTAL_ROUTING e then
        (case findVirtualHostForDomain (virtual_hosts routeConfig) (path (target s)) of
           None \<Rightarrow> Returns (reportResolutionError e ''No matching route found'' s)
         | Some virtualHost \<Rightarrow>
             (case build_routes e (routes virtualHost) [] [] of
                Inl err \<Rightarrow> Throws err s
              | Inr (allConfigClusters, matchList) \<Rightarrow>
                  (let tbl = reconcile allConfigClusters (clusterRefcounts s) in
                   Returns (s\<lparr>clusterRefcounts := tbl,
                               listener_calls := listener_calls s @
                                 [onSuccessfulResolution
                                    (XdsClusterManagerLoadBalancingConfig (clusterConfigMap tbl))
                                    (Some matchList)]\<rparr>))))
      else legacy_scan e (virtual_hosts routeConfig) s)"

definition refCluster :: "string \<Rightarrow> XdsResolver \<Rightarrow> XdsResolver" where
  "refCluster clusterName s =
     (case map_of (clusterRefcounts s) clusterName of
        Some refCnt \<Rightarrow>
          s\<lparr>clusterRefcounts :=
               AList.update clusterName (refCnt\<lparr>refCount := refCount refCnt + 1\<rparr>) (clusterRefcounts s)\<rparr>
      | None \<Rightarrow> s)"

text \<open>
  \<open>unrefCluster\<close> re-applies \<open>this.latestRouteConfig!\<close> after a delete; with no route
  configuration stored, \<open>handleRouteConfig(null)\<close> throws at \<open>routeConfig.virtual_hosts\<close>.
\<close>

definition unrefCluster :: "env \<Rightarrow> string \<Rightarrow> XdsResolver \<Rightarrow> completion" where
  "unrefCluster e clusterName s =
     (case map_of (clusterRefcounts s) clusterName of
        Some refCnt \<Rightarrow>
          (let refCnt' = refCnt\<lparr>refCount := refCount refCnt - 1\<rparr>;
               s' = s\<lparr>clusterRefcounts := AList.update clusterName refCnt' (clusterRefcounts s)\<rparr>
           in if \<not> inLastConfig refCnt' \<and> refCount refCnt' = 0 then
                (let s'' = s'\<lparr>clusterRefcounts := AList.delete clusterName (clusterRefcounts s')\<rparr>
                 in case latestRouteConfig s'' of
                      Some routeConfig \<Rightarrow> handleRouteConfig e routeConfig s''
                    | None \<Rightarrow> Throws TypeError s'')
              else Returns s')
      | None \<Rightarrow> Returns s)"

text \<open>
  The result of the config selector: the cluster of \<open>pickInformation\<close>, the status, and the
  cluster name the \<open>onCommitted\<close> callback will unref (\<open>None\<close> when no callback is returned).
\<close>

record ConfigSelection =
  pickInformation_cluster :: string
  selection_status :: Status
  onCommitted :: "string option"

text \<open>The loop over \<open>matchList\<close>: the action of the first route whose matcher passes.\<close>

fun first_match ::
    "(Matcher \<times> RouteAction) list \<Rightarrow> string \<Rightarrow> Metadata \<Rightarrow> (nat \<Rightarrow> nat \<Rightarrow> real) \<Rightarrow> nat
       \<Rightarrow> (RouteAction \<times> nat) option" where
  "first_match [] methodName metadata rnd n = None"
| "first_match ((matcher, action) # rest) methodName metadata rnd n =
     (case matcher methodName metadata rnd n of
        (True, n') \<Rightarrow> Some (action, n')
      | (False, n') \<Rightarrow> first_match rest methodName metadata rnd n')"

definition configSelector ::
    "(Matcher \<times> RouteAction) list \<Rightarrow> string \<Rightarrow> Metadata \<Rightarrow> (nat \<Rightarrow> nat \<Rightarrow> real) \<Rightarrow> XdsResolver
       \<Rightarrow> ConfigSelection \<times> XdsResolver" where
  "configSelector matchList methodName metadata rnd s =
     (case first_match matchList methodName metadata rnd 0 of
        Some (action, n) \<Rightarrow>
          (let clusterName = fst (action rnd n) in
           (\<lparr>pickInformation_cluster = clusterName, selection_status = OK,
             onCommitted = Some clusterName\<rparr>,
            refCluster clusterName s))
      | None \<Rightarrow>
          (\<lparr>pickInformation_cluster = '''', selection_status = UNAVAILABLE, onCommitted = None\<rparr>, s))"

text \<open>
  The watchers. A listener update is given as the \<open>route_specifier\<close> of its HTTP connection
  manager with the populated field.
\<close>

datatype RouteSpecifier = rds string | route_config RouteConfiguration | other_route_specifier

definition xds_call :: "XdsClientCall \<Rightarrow> XdsResolver \<Rightarrow> XdsResolver" where
  "xds_call c s = s\<lparr>xds_client_calls := xds_client_calls s @ [c]\<rparr>"

fun ldsWatcher_onValidUpdate :: "env \<Rightarrow> RouteSpecifier \<Rightarrow> XdsResolver \<Rightarrow> completion" where
  "ldsWatcher_onValidUpdate e (rds routeConfigName) s =
     (if latestRouteConfigName s \<noteq> Some routeConfigName then
        (let s1 = (case latestRouteConfigName s of
                     Some old \<Rightarrow> xds_call (removeRouteWatcher old) s
                   | None \<Rightarrow> s);
             s2 = xds_call (addRouteWatcher routeConfigName) s1
         in Returns (s2\<lparr>latestRouteConfigName := Some routeConfigName\<rparr>))
      else Returns s)"
| "ldsWatcher_onValidUpdate e (route_config routeConfig) s =
     (let s1 = (case latestRouteConfigName s of
                  Some old \<Rightarrow> if old \<noteq> '''' then xds_call (removeRouteWatcher old) s else s
                | None \<Rightarrow> s)
      in handleRouteConfig e routeConfig s1)"
| "ldsWatcher_onValidUpdate e other_route_specifier s = Returns s"

definition onTransientError :: "env \<Rightarrow> StatusObject \<Rightarrow> XdsResolver \<Rightarrow> XdsResolver" where
  "onTransientError e error s =
     (if \<not> hasReportedSuccess s then reportResolutionError e (details error) s else s)"

definition ldsWatcher_onTransientError :: "env \<Rightarrow> StatusObject \<Rightarrow> XdsResolver \<Rightarrow> XdsResolver" where
  "ldsWatcher_onTransientError = onTransientError"

text \<open>\<open>`Listener ${this.target} does not exist`\<close> converts the target object to a string.\<close>

definition ldsWatcher_onResourceDoesNotExist :: "env \<Rightarrow> XdsResolver \<Rightarrow> XdsResolver" where
  "ldsWatcher_onResourceDoesNotExist e s =
     reportResolutionError e (''Listener '' @ ''[object Object]'' @ '' does not exist'') s"

definition rdsWatcher_onValidUpdate :: "env \<Rightarrow> RouteConfiguration \<Rightarrow> XdsResolver \<Rightarrow> completion" where
  "rdsWatcher_onValidUpdate e update s = handleRouteConfig e update s"

definition rdsWatcher_onTransientError :: "env \<Rightarrow> StatusObject \<Rightarrow> XdsResolver \<Rightarrow> XdsResolver" where
  "rdsWatcher_onTransientError = onTransientError"

definition rdsWatcher_onResourceDoesNotExist :: "env \<Rightarrow> XdsResolver \<Rightarrow> XdsResolver" where
  "rdsWatcher_onResourceDoesNotExist e s =
     reportResolutionError e
       (''Route config '' @ (case latestRouteConfigName s of Some n \<Rightarrow> n | None \<Rightarrow> ''null'')
          @ '' does not exist'') s"

definition updateResolution :: "XdsResolver \<Rightarrow> XdsResolver" where
  "updateResolution s =
     (if \<not> isLdsWatcherActive s
      then (xds_call (addListenerWatcher (path (target s))) s)\<lparr>isLdsWatcherActive := True\<rparr>
      else s)"

definition destroy :: "XdsResolver \<Rightarrow> XdsResolver" where
  "destroy s =
     (let s1 = xds_call (removeListenerWatcher (path (target s))) s
      in case latestRouteConfigName s1 of
           Some nm \<Rightarrow> if nm \<noteq> '''' then xds_call (removeRouteWatcher nm) s1 else s1
         | None \<Rightarrow> s1)"

section \<open>The resolver driven by its callers\<close>

text \<open>
  The resolver's state changes only through the watcher callbacks, the config selector the
  channel holds (the one of the latest successful resolution) and the \<open>onCommitted\<close>
  callbacks of earlier selections, each invoked once. A run is a list of such steps;
  \<open>in_flight\<close> holds the cluster names of the callbacks not yet invoked.
\<close>

datatype step =
    LdsUpdate RouteSpecifier
  | LdsTransientError StatusObject
  | LdsDoesNotExist
  | RdsUpdate RouteConfiguration
  | RdsTransientError StatusObject
  | RdsDoesNotExist
  | SelectConfig string Metadata "nat \<Rightarrow> nat \<Rightarrow> real"
  | Commit nat

record world =
  resolver :: XdsResolver
  in_flight :: "string list"

definition new_world :: "GrpcUri \<Rightarrow> world" where
  "new_world t = \<lparr>resolver = new_XdsResolver t, in_flight = []\<rparr>"

text \<open>The selector the channel holds after the listener calls so far: an error keeps it.\<close>

fun channel_selector ::
    "ResolverEvent list \<Rightarrow> (Matcher \<times> RouteAction) list option
       \<Rightarrow> (Matcher \<times> RouteAction) list option" where
  "channel_selector [] cur = cur"
| "channel_selector (onSuccessfulResolution lb sel # evs) cur = channel_selector evs sel"
| "channel_selector (onError st # evs) cur = channel_selector evs cur"

fun apply_step :: "env \<Rightarrow> step \<Rightarrow> world \<Rightarrow> world" where
  "apply_step e (LdsUpdate u) w = w\<lparr>resolver := state_of (ldsWatcher_onValidUpdate e u (resolver w))\<rparr>"
| "apply_step e (LdsTransientError st) w = w\<lparr>resolver := ldsWatcher_onTransientError e st (resolver w)\<rparr>"
| "apply_step e LdsDoesNotExist w = w\<lparr>resolver := ldsWatcher_onResourceDoesNotExist e (resolver w)\<rparr>"
| "apply_step e (RdsUpdate u) w = w\<lparr>resolver := state_of (rdsWatcher_onValidUpdate e u (resolver w))\<rparr>"
| "apply_step e (RdsTransientError st) w = w\<lparr>resolver := rdsWatcher_onTransientError e st (resolver w)\<rparr>"
| "apply_step e RdsDoesNotExist w = w\<lparr>resolver := rdsWatcher_onResourceDoesNotExist e (resolver w)\<rparr>"
| "apply_step e (SelectConfig methodName metadata rnd) w =
     (case channel_selector (listener_calls (resolver w)) None of
        None \<Rightarrow> w
      | Some matchList \<Rightarrow>
          (case configSelector matchList methodName metadata rnd (resolver w) of
             (sel, s') \<Rightarrow>
               w\<lparr>resolver := s',
                 in_flight := in_flight w @ (case onCommitted sel of Some c \<Rightarrow> [c] | None \<Rightarrow> [])\<rparr>))"
| "apply_step e (Commit i) w =
     (if i < length (in_flight w) then
        w\<lparr>resolver := state_of (unrefCluster e (in_flight w ! i) (resolver w)),
          in_flight := take i (in_flight w) @ drop (Suc i) (in_flight w)\<rparr>
      else w)"

definition exec :: "env \<Rightarrow> step list \<Rightarrow> world \<Rightarrow> world" where
  "exec e steps w = fold (apply_step e) steps w"

text \<open>
  Route configurations in which no weighted-cluster action can run off the end of its
  choices (the case of which the source says "This should be prevented by the validation
  rules"): the weights of the action add up to at least the total it draws against, and
  they are not all zero.
\<close>

definition weight_value :: "ClusterWeight \<Rightarrow> nat" where
  "weight_value clusterWeight = (case weight clusterWeight of Some v \<Rightarrow> v | None \<Rightarrow> 0)"

fun weights_cover_total :: "ClusterSpecifier \<Rightarrow> bool" where
  "weights_cover_total (weighted_clusters clusters total_weight) =
     (effective_total_weight total_weight \<le> sum_list (map weight_value clusters)
      \<and> 0 < sum_list (map weight_value clusters))"
| "weights_cover_total (cluster c) = True"
| "weights_cover_total (cluster_header h) = True"

definition route_validated :: "Route \<Rightarrow> bool" where
  "route_validated r = (case route r of Some cs \<Rightarrow> weights_cover_total cs | None \<Rightarrow> True)"

definition validated :: "RouteConfiguration \<Rightarrow> bool" where
  "validated routeConfig =
     list_all (\<lambda>vh. list_all route_validated (routes vh)) (virtual_hosts routeConfig)"

text \<open>
  \<open>Math.random()\<close> returns a double in \<open>[0, 1)\<close>, so its rounded product with a whole number
  \<open>c\<close> is not negative, lies below \<open>c\<close> when \<open>c\<close> is positive, and is 0 when \<open>c\<close> is 0.
\<close>

definition draws_in_range :: "(nat \<Rightarrow> nat \<Rightarrow> real) \<Rightarrow> bool" where
  "draws_in_range rnd =
     (\<forall>k c. 0 \<le> rnd k c \<and> (0 < c \<longrightarrow> rnd k c < real c) \<and> rnd k 0 = 0)"

fun step_validated :: "step \<Rightarrow> bool" where
  "step_validated (LdsUpdate (route_config routeConfig)) = validated routeConfig"
| "step_validated (RdsUpdate routeConfig) = validated routeConfig"
| "step_validated (SelectConfig methodName metadata rnd) = draws_in_range rnd"
| "step_validated other = True"

text \<open>The invariant of the data model on the reference-count table.\<close>

definition table_invariant :: "(string \<times> RefEntry) list \<Rightarrow> bool" where
  "table_invariant tbl =
     (distinct (map fst tbl) \<and> list_all (\<lambda>(nm, refCnt). inLastConfig refCnt \<or> refCount refCnt > 0) tbl)"

section \<open>Resolving call\<close>

text \<open>
  A deadline is a point in time in milliseconds since the epoch (a \<open>Date\<close> or a finite
  number) or \<open>Infinity\<close>.
\<close>

datatype Deadline = Infinity | At int

text \<open>
  Modelled from the spec: \<open>minDeadline\<close> of \<open>deadline.ts\<close>, which is not among the sources
  ("taking the earlier of the two", "taking the minimum of this call's deadline and the
  parent's").
\<close>

fun minDeadline :: "Deadline \<Rightarrow> Deadline \<Rightarrow> Deadline" where
  "minDeadline Infinity d = d"
| "minDeadline (At a) Infinity = At a"
| "minDeadline (At a) (At b) = At (min a b)"

text \<open>
  Modelled from the spec: \<open>getRelativeTimeout\<close> of \<open>deadline.ts\<close>, which is not among the
  sources: the time left until a finite deadline ("If the deadline is already in the
  past, the expiry action is scheduled as soon as possible").
\<close>

definition getRelativeTimeout :: "int \<Rightarrow> int \<Rightarrow> int" where
  "getRelativeTimeout now t = t - now"

record CallConfig =
  config_status :: Status
  methodConfig_timeout :: "(nat \<times> nat) option"
  dynamicFilterFactories :: "nat list"

datatype GetConfigResult = NONE | ERROR StatusObject | SUCCESS CallConfig

text \<open>The operations invoked on an inner call, and what \<open>createInnerCall\<close> was given.\<close>

datatype ChildOp =
    child_start Metadata
  | child_startRead
  | child_sendMessageWithContext nat string
  | child_halfClose
  | child_cancelWithStatus Status string

record InnerCall =
  inner_config :: CallConfig
  inner_method :: string
  inner_host :: string
  inner_credentials :: "nat list"
  inner_deadline :: Deadline
  inner_ops :: "ChildOp list"

text \<open>What \<open>setTimeout\<close> and \<open>process.nextTick\<close> are given to run.\<close>

datatype Task = noop | handleDeadline | deliverStatus StatusObject

record Timer =
  timer_id :: nat
  timer_task :: Task
  timer_delay :: int

datatype ListenerCall =
    onReceiveMetadata Metadata
  | onReceiveMessage string
  | onReceiveStatus StatusObject

record ParentCall =
  parent_deadline :: Deadline

record CallStreamOptions =
  options_deadline :: Deadline
  options_host :: string
  parentCall :: "ParentCall option"
  flags :: nat

text \<open>
  What the file takes from outside the sources: the clock, the two \<open>Propagate\<close> flag
  constants and \<open>restrictControlPlaneStatusCode\<close>.
\<close>

record call_env =
  now :: int
  Propagate_DEADLINE :: nat
  Propagate_CANCELLATION :: nat
  restrictControlPlaneStatusCode :: "Status \<Rightarrow> string \<Rightarrow> Status \<times> string"

text \<open>
  The fields of the class, followed by what the call has done to its surroundings: the
  timers it holds, the \<open>process.nextTick\<close> queue, the invocations of status watchers
  (watchers and the listener are identified by numbers), the calls delivered to the
  listener, the number of \<open>queueCallForConfig\<close> calls, the filter factories pushed and the
  subscription to the parent's \<open>cancelled\<close> event.
\<close>

record ResolvingCall =
  child :: "InnerCall option"
  readPending :: bool
  pendingMessage :: "(nat \<times> string) option"
  pendingHalfClose :: bool
  ended :: bool
  metadata :: "Metadata option"
  listener :: "nat option"
  deadline :: Deadline
  host :: string
  statusWatchers :: "nat list"
  deadlineTimer :: nat
  call_method :: string
  credentials :: "nat list"
  callNumber :: nat
  timers :: "Timer list"
  next_timer_id :: nat
  nextTick_queue :: "Task list"
  watcher_calls :: "(nat \<times> StatusObject) list"
  delivered :: "ListenerCall list"
  queued_for_config :: nat
  filter_pushes :: "nat list list"
  parent_cancel_subscribed :: bool

definition clearTimeout :: "nat \<Rightarrow> ResolvingCall \<Rightarrow> ResolvingCall" where
  "clearTimeout tid s = s\<lparr>timers := filter (\<lambda>t. timer_id t \<noteq> tid) (timers s)\<rparr>"

definition runDeadlineTimer :: "call_env \<Rightarrow> ResolvingCall \<Rightarrow> ResolvingCall" where
  "runDeadlineTimer ce s0 =
     (let s = clearTimeout (deadlineTimer s0) s0 in
      case deadline s of
        Infinity \<Rightarrow> s
      | At t \<Rightarrow>
          (let timeout = getRelativeTimeout (now ce) t in
           if timeout \<le> 0 then s\<lparr>nextTick_queue := nextTick_queue s @ [handleDeadline]\<rparr>
           else s\<lparr>timers := timers s @
                     [\<lparr>timer_id = next_timer_id s, timer_task = handleDeadline, timer_delay = timeout\<rparr>],
                   deadlineTimer := next_timer_id s,
                   next_timer_id := Suc (next_timer_id s)\<rparr>))"

text \<open>
  The constructor. The field initialiser \<open>deadlineTimer = setTimeout(() => {}, 0)\<close> is the
  timer numbered 0. \<open>constructor_body\<close> is the constructor up to its last statement,
  \<open>this.runDeadlineTimer()\<close>. The flag tests \<open>options.flags & Propagate.X\<close> are taken on
  natural numbers.
\<close>

definition constructor_body ::
    "call_env \<Rightarrow> string \<Rightarrow> CallStreamOptions \<Rightarrow> nat list \<Rightarrow> nat \<Rightarrow> ResolvingCall" where
  "constructor_body ce meth options creds number =
     (let s = \<lparr>child = None, readPending = False, pendingMessage = None, pendingHalfClose = False,
               ended = False, metadata = None, listener = None,
               deadline = options_deadline options, host = options_host options,
               statusWatchers = [], deadlineTimer = 0, call_method = meth, credentials = creds,
               callNumber = number,
               timers = [\<lparr>timer_id = 0, timer_task = noop, timer_delay = 0\<rparr>],
               next_timer_id = 1, nextTick_queue = [], watcher_calls = [], delivered = [],
               queued_for_config = 0, filter_pushes = [], parent_cancel_subscribed = False\<rparr>
      in case parentCall options of
           None \<Rightarrow> s
         | Some parent \<Rightarrow>
             (let sa = (if flags options AND Propagate_CANCELLATION ce \<noteq> 0
                        then s\<lparr>parent_cancel_subscribed := True\<rparr> else s)
              in if flags options AND Propagate_DEADLINE ce \<noteq> 0
                 then sa\<lparr>deadline := minDeadline (deadline sa) (parent_deadline parent)\<rparr>
                 else sa))"

definition new_ResolvingCall ::
    "call_env \<Rightarrow> string \<Rightarrow> CallStreamOptions \<Rightarrow> nat list \<Rightarrow> nat \<Rightarrow> ResolvingCall" where
  "new_ResolvingCall ce meth options creds number =
     runDeadlineTimer ce (constructor_body ce meth options creds number)"

definition outputStatus :: "StatusObject \<Rightarrow> ResolvingCall \<Rightarrow> ResolvingCall" where
  "outputStatus status s =
     (if \<not> ended s then
        s\<lparr>ended := True,
          watcher_calls := watcher_calls s @ map (\<lambda>watcher. (watcher, status)) (statusWatchers s),
          nextTick_queue := nextTick_queue s @ [deliverStatus status]\<rparr>
      else s)"

definition queueCallForConfig :: "ResolvingCall \<Rightarrow> ResolvingCall" where
  "queueCallForConfig s = s\<lparr>queued_for_config := Suc (queued_for_config s)\<rparr>"

text \<open>
  The replay at the end of \<open>getConfig\<close>: \<open>start\<close> and the buffered operations, as invoked
  on the new inner call.
\<close>

definition replay_ops :: "Metadata \<Rightarrow> ResolvingCall \<Rightarrow> ChildOp list" where
  "replay_ops md s =
     [child_start md]
     @ (if readPending s then [child_startRead] else [])
     @ (case pendingMessage s of
          Some (context, message) \<Rightarrow> [child_sendMessageWithContext context message]
        | None \<Rightarrow> [])
     @ (if pendingHalfClose s then [child_halfClose] else [])"

text \<open>
  \<open>getConfig\<close>, given what \<open>this.channel.getConfig(this.method, this.metadata)\<close> returned.
  The \<open>Date\<close> arithmetic adds the seconds and the whole milliseconds of the nanoseconds to
  the current time.
\<close>

definition getConfig :: "call_env \<Rightarrow> GetConfigResult \<Rightarrow> ResolvingCall \<Rightarrow> js_error + ResolvingCall" where
  "getConfig ce configResult s =
     (if ended s then Inr s
      else case (metadata s, listener s) of
        (Some md, Some l) \<Rightarrow>
          (case configResult of
             NONE \<Rightarrow> Inr (queueCallForConfig s)
           | ERROR err \<Rightarrow>
               if waitForReady md then Inr (queueCallForConfig s) else Inr (outputStatus err s)
           | SUCCESS config \<Rightarrow>
               if config_status config \<noteq> OK then
                 (case restrictControlPlaneStatusCode ce (config_status config)
                         (''Failed to route call to method '' @ call_method s) of
                    (c, d) \<Rightarrow>
                      Inr (outputStatus \<lparr>code = c, details = d, status_metadata = new_Metadata\<rparr> s))
               else
                 (let s1 = (case methodConfig_timeout config of
                              Some (seconds, nanos) \<Rightarrow>
                                (let configDeadline =
                                       At (now ce + int seconds * 1000 + int (nanos div 1000000))
                                 in s\<lparr>deadline := minDeadline (deadline s) configDeadline\<rparr>)
                            | None \<Rightarrow> s);
                      s2 = s1\<lparr>filter_pushes := filter_pushes s1 @ [dynamicFilterFactories config]\<rparr>
                  in Inr (s2\<lparr>child := Some \<lparr>inner_config = config, inner_method = call_method s2,
                                              inner_host = host s2,
                                              inner_credentials = credentials s2,
                                              inner_deadline = deadline s2,
                                              inner_ops = replay_ops md s2\<rparr>\<rparr>)))
      | _ \<Rightarrow> Inl (Error ''getConfig called before start''))"

definition child_invoke :: "ChildOp \<Rightarrow> InnerCall \<Rightarrow> InnerCall" where
  "child_invoke op c = c\<lparr>inner_ops := inner_ops c @ [op]\<rparr>"



definition start ::
    "call_env \<Rightarrow> GetConfigResult \<Rightarrow> Metadata \<Rightarrow> nat \<Rightarrow> ResolvingCall \<Rightarrow> js_error + ResolvingCall" where
  "start ce configResult md l s = getConfig ce configResult (s\<lparr>metadata := Some md, listener := Some l\<rparr>)"

definition sendMessageWithContext :: "nat \<Rightarrow> string \<Rightarrow> ResolvingCall \<Rightarrow> ResolvingCall" where
  "sendMessageWithContext context message s =
     (case child s of
        Some c \<Rightarrow> s\<lparr>child := Some (child_invoke (child_sendMessageWithContext context message) c)\<rparr>
      | None \<Rightarrow> s\<lparr>pendingMessage := Some (context, message)\<rparr>)"

definition startRead :: "ResolvingCall \<Rightarrow> ResolvingCall" where
  "startRead s =
     (case child s of
        Some c \<Rightarrow> s\<lparr>child := Some (child_invoke child_startRead c)\<rparr>
      | None \<Rightarrow> s\<lparr>readPending := True\<rparr>)"

definition halfClose :: "ResolvingCall \<Rightarrow> ResolvingCall" where
  "halfClose s =
     (case child s of
        Some c \<Rightarrow> s\<lparr>child := Some (child_invoke child_halfClose c)\<rparr>
      | None \<Rightarrow> s\<lparr>pendingHalfClose := True\<rparr>)"

definition addStatusWatcher :: "nat \<Rightarrow> ResolvingCall \<Rightarrow> ResolvingCall" where
  "addStatusWatcher watcher s = s\<lparr>statusWatchers := statusWatchers s @ [watcher]\<rparr>"




section \<open>Specification predicates\<close>

text \<open>
  The loop invariant of the scan, in the terms of the code: \<open>pattern_matches\<close> is
  \<open>domainMatch\<close> under the pattern's own match type, \<open>better_pattern\<close> compares as the two
  \<open>continue\<close> tests do (the smaller value of the match type, or the same type and the
  greater length). The candidates are the (virtual host, pattern) pairs in the order the
  two loops visit them.
\<close>

definition pattern_matches :: "string \<Rightarrow> string \<Rightarrow> bool" where
  "pattern_matches domain p = domainMatch (domainPatternMatchType p) p domain"

definition better_pattern :: "string \<Rightarrow> string \<Rightarrow> bool" where
  "better_pattern p q =
     (MatchType_value (domainPatternMatchType p) < MatchType_value (domainPatternMatchType q)
      \<or> (domainPatternMatchType p = domainPatternMatchType q \<and> length p > length q))"

definition candidates :: "VirtualHost list \<Rightarrow> (VirtualHost \<times> string) list" where
  "candidates vhs = concat (map (\<lambda>vh. map (Pair vh) (domains vh)) vhs)"

definition scan_inv :: "string \<Rightarrow> (VirtualHost \<times> string) list \<Rightarrow> scan_state \<Rightarrow> bool" where
  "scan_inv d seen st =
     (case targetVhost st of
        None \<Rightarrow> bestMatchType st = INVALID_MATCH \<and> longestMatch st = 0
                 \<and> (\<forall>c \<in> set seen. \<not> pattern_matches d (snd c))
      | Some vh \<Rightarrow> (\<exists>pre p post. seen = pre @ (vh, p) # post \<and> pattern_matches d p
                 \<and> domainPatternMatchType p = bestMatchType st \<and> length p = longestMatch st
                 \<and> (\<forall>c \<in> set pre. pattern_matches d (snd c) \<longrightarrow> better_pattern p (snd c))
                 \<and> (\<forall>c \<in> set post. pattern_matches d (snd c) \<longrightarrow> \<not> better_pattern (snd c) p)))"

text \<open>
  Following the spec's words (section 4.1), without the functions of the code: the tiers of
  patterns with their ranks ("lower numeric rank = better"), the tier of a pattern read off
  its characters, what it is for a pattern to match a host name (the wildcard character is
  stripped before the suffix or prefix test; an exact pattern is compared as a whole), and
  when one pattern outranks another (a better tier, or the same tier and the greater
  character length).
\<close>

datatype tier = Exact_tier | Suffix_tier | Prefix_tier | Universal_tier | Invalid_tier

fun tier_rank :: "tier \<Rightarrow> nat" where
  "tier_rank Exact_tier = 0"
| "tier_rank Suffix_tier = 1"
| "tier_rank Prefix_tier = 2"
| "tier_rank Universal_tier = 3"
| "tier_rank Invalid_tier = 4"

text \<open>
  The spec calls invalid "a pattern with no characters, or with a \<open>*\<close> appearing anywhere
  other than as the sole character or as the leading/trailing character":
  \<open>invalid_by_position\<close>. The narrower class \<open>invalid_pattern\<close> holds the empty pattern and
  the patterns that contain \<open>*\<close> but neither start nor end with it.
\<close>

definition invalid_by_position :: "string \<Rightarrow> bool" where
  "invalid_by_position p = (p = [] \<or> CHR ''*'' \<in> set (butlast (tl p)))"

definition invalid_pattern :: "string \<Rightarrow> bool" where
  "invalid_pattern p =
     (p = [] \<or> (CHR ''*'' \<in> set p \<and> hd p \<noteq> CHR ''*'' \<and> last p \<noteq> CHR ''*''))"

definition pattern_tier :: "string \<Rightarrow> tier" where
  "pattern_tier p =
     (if invalid_pattern p then Invalid_tier
      else if CHR ''*'' \<notin> set p then Exact_tier
      else if p = ''*'' then Universal_tier
      else if hd p = CHR ''*'' then Suffix_tier
      else Prefix_tier)"

definition host_matches :: "string \<Rightarrow> string \<Rightarrow> bool" where
  "host_matches hostName p =
     (case pattern_tier p of
        Exact_tier \<Rightarrow> hostName = p
      | Suffix_tier \<Rightarrow> suffix (tl p) hostName
      | Prefix_tier \<Rightarrow> prefix (butlast p) hostName
      | Universal_tier \<Rightarrow> True
      | Invalid_tier \<Rightarrow> False)"

definition outranks :: "string \<Rightarrow> string \<Rightarrow> bool" where
  "outranks p q =
     (tier_rank (pattern_tier p) < tier_rank (pattern_tier q)
      \<or> (pattern_tier p = pattern_tier q \<and> length q < length p))"

text \<open>
  Two virtual hosts where a long prefix pattern comes before a short suffix pattern, and
  one whose only pattern has a \<open>*\<close> in the middle and at the end.
\<close>

definition order_vhosts :: "VirtualHost list" where
  "order_vhosts =
     [\<lparr>domains = [''a.example.*''], routes = []\<rparr>,
      \<lparr>domains = [''*.com''], routes = []\<rparr>]"

definition interior_star_vhosts :: "VirtualHost list" where
  "interior_star_vhosts = [\<lparr>domains = [''a*b*''], routes = []\<rparr>]"

definition example_vhosts :: "VirtualHost list" where
  "example_vhosts =
     [\<lparr>domains = [''*.example.com''], routes = []\<rparr>,
      \<lparr>domains = [''a.example.com'', ''a.example.com''], routes = []\<rparr>,
      \<lparr>domains = [''*''], routes = []\<rparr>]"


datatype UserOp = call_startRead | call_sendMessage nat string | call_halfClose

fun user_op :: "UserOp \<Rightarrow> ResolvingCall \<Rightarrow> ResolvingCall" where
  "user_op call_startRead s = startRead s"
| "user_op (call_sendMessage context message) s = sendMessageWithContext context message s"
| "user_op call_halfClose s = halfClose s"

text \<open>The message of the last send among the operations, if any.\<close>

fun last_message :: "UserOp list \<Rightarrow> (nat \<times> string) option \<Rightarrow> (nat \<times> string) option" where
  "last_message [] cur = cur"
| "last_message (call_sendMessage context message # ops) cur = last_message ops (Some (context, message))"
| "last_message (call_startRead # ops) cur = last_message ops cur"
| "last_message (call_halfClose # ops) cur = last_message ops cur"

text \<open>
  Example inputs: a call constructed at time 1000 without a deadline and without a parent,
  with one status watcher, in the state in which \<open>start\<close> asks for the configuration; and a
  configuration with a method timeout of one second.
\<close>

definition example_call_env :: call_env where
  "example_call_env =
     \<lparr>now = 1000, Propagate_DEADLINE = 1, Propagate_CANCELLATION = 8,
      restrictControlPlaneStatusCode = (\<lambda>c d. (c, d))\<rparr>"

definition example_options :: CallStreamOptions where
  "example_options =
     \<lparr>options_deadline = Infinity, options_host = ''svc'', parentCall = None, flags = 0\<rparr>"

definition example_call :: ResolvingCall where
  "example_call =
     addStatusWatcher 7 (new_ResolvingCall example_call_env ''/pkg.Service/Method'' example_options [] 1)
       \<lparr>metadata := Some new_Metadata, listener := Some 3\<rparr>"

definition example_config :: CallConfig where
  "example_config =
     \<lparr>config_status = OK, methodConfig_timeout = Some (1, 0), dynamicFilterFactories = []\<rparr>"

text \<open>
  The cumulative-weight table the loop over the weighted clusters builds, written as a
  function of the running numerator.
\<close>

fun cdf :: "nat \<Rightarrow> ClusterWeight list \<Rightarrow> ClusterChoice list" where
  "cdf lastNumerator [] = []"
| "cdf lastNumerator (clusterWeight # rest) =
     \<lparr>choice_cluster = cw_name clusterWeight,
      choice_numerator = lastNumerator + weight_value clusterWeight\<rparr>
     # cdf (lastNumerator + weight_value clusterWeight) rest"

text \<open>Compiling a header rule and applying the predicate to one call.\<close>

definition apply_header_rule ::
    "env \<Rightarrow> HeaderMatcher \<Rightarrow> string \<Rightarrow> Metadata \<Rightarrow> js_error + bool" where
  "apply_header_rule e headerMatch methodName md =
     (case getPredicateForHeaderMatcher e headerMatch of
        Inl err \<Rightarrow> Inl err
      | Inr p \<Rightarrow> Inr (p methodName md))"

text \<open>Whether the listener was given a successful resolution.\<close>

fun is_success :: "ResolverEvent \<Rightarrow> bool" where
  "is_success (onSuccessfulResolution lb sel) = True"
| "is_success (onError status) = False"

text \<open>The status objects of the errors the listener was given.\<close>

fun reported_errors :: "ResolverEvent list \<Rightarrow> StatusObject list" where
  "reported_errors [] = []"
| "reported_errors (onError status # evs) = status # reported_errors evs"
| "reported_errors (onSuccessfulResolution lb sel # evs) = reported_errors evs"

text \<open>Example inputs.\<close>

definition example_env :: env where
  "example_env =
     \<lparr>GRPC_XDS_EXPERIMENTAL_ROUTING = True, RE2 = (\<lambda>pattern flgs. None),
      uriToString = (\<lambda>uri. ''xds:'' @ path uri)\<rparr>"

definition legacy_env :: env where
  "legacy_env = example_env\<lparr>GRPC_XDS_EXPERIMENTAL_ROUTING := False\<rparr>"

definition example_target :: GrpcUri where
  "example_target = \<lparr>scheme = Some ''xds'', authority = None, path = ''svc''\<rparr>"

definition any_path :: RouteMatch where
  "any_path =
     \<lparr>path_specifier = prefix_specifier '''', case_sensitive = None, headers = [],
      runtime_fraction = None\<rparr>"

definition route_to :: "string \<Rightarrow> RouteConfiguration" where
  "route_to c =
     \<lparr>virtual_hosts =
        [\<lparr>domains = [''svc''], routes = [\<lparr>match = Some any_path, route = Some (cluster c)\<rparr>]\<rparr>]\<rparr>"

definition other_host_config :: RouteConfiguration where
  "other_host_config =
     \<lparr>virtual_hosts =
        [\<lparr>domains = [''other''], routes = [\<lparr>match = Some any_path, route = Some (cluster ''A'')\<rparr>]\<rparr>]\<rparr>"

definition underweight_config :: RouteConfiguration where
  "underweight_config =
     \<lparr>virtual_hosts =
        [\<lparr>domains = [''svc''],
          routes = [\<lparr>match = Some any_path,
                     route = Some (weighted_clusters [\<lparr>cw_name = ''A'', weight = Some 10\<rparr>]
                                     (Some 100))\<rparr>]\<rparr>]\<rparr>"

definition example_weights :: "ClusterWeight list" where
  "example_weights = [\<lparr>cw_name = ''A'', weight = Some 30\<rparr>, \<lparr>cw_name = ''B'', weight = Some 70\<rparr>]"

text \<open>
  A weighted-cluster list whose weights are all zero, and one for a declared total weight
  of 10.
\<close>

definition zero_weights :: "ClusterWeight list" where
  "zero_weights = [\<lparr>cw_name = ''A'', weight = Some 0\<rparr>]"

definition ten_weights :: "ClusterWeight list" where
  "ten_weights = [\<lparr>cw_name = ''A'', weight = Some 3\<rparr>, \<lparr>cw_name = ''B'', weight = Some 7\<rparr>]"

definition example_bin_header :: HeaderMatcher where
  "example_bin_header =
     \<lparr>name = ''trace-bin'', header_match_specifier = present_match, invert_match = True\<rparr>"

definition transient :: StatusObject where
  "transient = \<lparr>code = UNAVAILABLE, details = ''stream closed'', status_metadata = new_Metadata\<rparr>"

text \<open>
  The random source whose every \<open>Math.random()\<close> is \<open>0.5\<close>: the product with a whole number
  is exact.
\<close>

definition half :: "nat \<Rightarrow> nat \<Rightarrow> real" where
  "half k c = real c / 2"

text \<open>The resolver after one route configuration for cluster \<open>A\<close> arrived on the route watch.\<close>

definition after_success :: "env \<Rightarrow> XdsResolver" where
  "after_success e =
     state_of (rdsWatcher_onValidUpdate e (route_to ''A'') (new_XdsResolver example_target))"

text \<open>
  A match list of one route that matches every call and whose weighted action has the one
  choice \<open>A\<close> with bound 10 against the total 100.
\<close>

definition fall_through_list :: "(Matcher \<times> RouteAction) list" where
  "fall_through_list = [(\<lambda>methodName metadata rnd n. (True, n), weighted_action
        [\<lparr>choice_cluster = ''A'', choice_numerator = 10\<rparr>] (Some 100))]"

text \<open>
  What holds of the resolver between steps, given the cluster names \<open>fl\<close> of the commit
  callbacks not yet invoked: the table invariant; every entry counts the callbacks in
  flight for its name, and every such name has an entry; every cluster the channel's
  selector can return has an entry marked as in the last configuration; and the stored
  route configuration is one that was admitted.
\<close>

definition counts_match :: "string list \<Rightarrow> (string \<times> RefEntry) list \<Rightarrow> bool" where
  "counts_match fl tbl =
     (set fl \<subseteq> fst ` set tbl
      \<and> (\<forall>nm refCnt. map_of tbl nm = Some refCnt \<longrightarrow> refCount refCnt = int (count_list fl nm)))"

definition actions_covered :: "(Matcher \<times> RouteAction) list \<Rightarrow> (string \<Rightarrow> bool) \<Rightarrow> bool" where
  "actions_covered matchList ok =
     (\<forall>(matcher, action) \<in> set matchList. \<forall>rnd n. draws_in_range rnd \<longrightarrow> ok (fst (action rnd n)))"

definition marked :: "(string \<times> RefEntry) list \<Rightarrow> string \<Rightarrow> bool" where
  "marked tbl nm = (case map_of tbl nm of Some refCnt \<Rightarrow> inLastConfig refCnt | None \<Rightarrow> False)"

definition selector_covered :: "ResolverEvent list \<Rightarrow> (string \<times> RefEntry) list \<Rightarrow> bool" where
  "selector_covered evs tbl =
     (case channel_selector evs None of
        None \<Rightarrow> True
      | Some matchList \<Rightarrow> actions_covered matchList (marked tbl))"

definition latest_validated :: "XdsResolver \<Rightarrow> bool" where
  "latest_validated s = (case latestRouteConfig s of Some rc \<Rightarrow> validated rc | None \<Rightarrow> True)"

definition consistent :: "string list \<Rightarrow> XdsResolver \<Rightarrow> bool" where
  "consistent fl s =
     (table_invariant (clusterRefcounts s)
      \<and> counts_match fl (clusterRefcounts s)
      \<and> selector_covered (listener_calls s) (clusterRefcounts s)
      \<and> latest_validated s)"

text \<open>
  A run in which a weighted action whose weights add up to 10 against the total 100 is
  selected with the draw 50 and falls through, a cluster with the empty name then enters
  the routing table and the selection commits; and the same run followed by a routing
  table without that cluster.
\<close>

definition fall_through_commit_run :: "step list" where
  "fall_through_commit_run =
     [RdsUpdate underweight_config,
      SelectConfig ''/pkg.Service/Method'' new_Metadata half,
      RdsUpdate (route_to ''''),
      Commit 0]"

definition fall_through_run :: "step list" where
  "fall_through_run =
     [RdsUpdate underweight_config,
      SelectConfig ''/pkg.Service/Method'' new_Metadata half,
      RdsUpdate (route_to ''''),
      Commit 0,
      RdsUpdate (route_to ''B'')]"

text \<open>
  A run of admitted steps: cluster \<open>A\<close> is selected, leaves the routing table while the
  call is in flight, and the call commits.
\<close>

definition in_flight_run :: "step list" where
  "in_flight_run =
     [RdsUpdate (route_to ''A''),
      SelectConfig ''/pkg.Service/Method'' new_Metadata half,
      RdsUpdate (route_to ''B'')]"

section \<open>Domain matcher: proofs\<close>

lemma MatchType_value_inj: "MatchType_value a = MatchType_value b \<Longrightarrow> a = b"
  by (cases a; cases b) simp_all

lemma MatchType_value_le: "MatchType_value a \<le> 4"
  by (cases a) simp_all

lemma better_irrefl: "\<not> better_pattern p p"
  by (simp add: better_pattern_def)

lemma better_asym: "better_pattern p q \<Longrightarrow> \<not> better_pattern q p"
  by (auto simp: better_pattern_def)

lemma better_trans: "better_pattern q p \<Longrightarrow> \<not> better_pattern p' p \<Longrightarrow> better_pattern q p'"
  unfolding better_pattern_def
  by (metis MatchType_value_inj less_trans linorder_neqE_nat not_less_iff_gr_or_eq)

lemma exact_matches: "domainPatternMatchType p = EXACT_MATCH \<Longrightarrow> pattern_matches d p \<Longrightarrow> p = d"
  by (simp add: pattern_matches_def)

lemma invalid_no_match: "domainPatternMatchType p = INVALID_MATCH \<Longrightarrow> \<not> pattern_matches d p"
  by (simp add: pattern_matches_def)

lemma scan_inv_exact_extend:
  assumes "scan_inv d seen st" "bestMatchType st = EXACT_MATCH"
  shows "scan_inv d (seen @ ext) st"
proof (cases "targetVhost st")
  case None
  with assms show ?thesis by (simp add: scan_inv_def)
next
  case (Some vh)
  with assms obtain pre p post where h: "seen = pre @ (vh, p) # post" "pattern_matches d p"
    "domainPatternMatchType p = EXACT_MATCH" "length p = longestMatch st"
    "\<forall>c \<in> set pre. pattern_matches d (snd c) \<longrightarrow> better_pattern p (snd c)"
    "\<forall>c \<in> set post. pattern_matches d (snd c) \<longrightarrow> \<not> better_pattern (snd c) p"
    by (auto simp: scan_inv_def)
  have pd: "p = d" using h exact_matches by blast
  have "\<not> better_pattern q p" if "pattern_matches d q" for q
  proof (cases "domainPatternMatchType q = EXACT_MATCH")
    case True
    then have "q = d" using that exact_matches by blast
    then show ?thesis using pd by (simp add: better_pattern_def)
  next
    case False
    then show ?thesis using h(3) by (simp add: better_pattern_def)
  qed
  then have "\<forall>c \<in> set (post @ ext). pattern_matches d (snd c) \<longrightarrow> \<not> better_pattern (snd c) p"
    using h(6) by auto
  moreover have "seen @ ext = pre @ (vh, p) # (post @ ext)" using h(1) by simp
  ultimately show ?thesis using Some h assms(2)
    unfolding scan_inv_def by (simp only: option.case) blast
qed

lemma scan_inv_step_skip:
  assumes "scan_inv d seen st"
    and "MatchType_value (domainPatternMatchType q) > MatchType_value (bestMatchType st)
         \<or> (domainPatternMatchType q = bestMatchType st \<and> length q \<le> longestMatch st)
         \<or> \<not> pattern_matches d q"
  shows "scan_inv d (seen @ [(vh', q)]) st"
proof (cases "targetVhost st")
  case None
  with assms MatchType_value_le [of "domainPatternMatchType q"] show ?thesis
    by (auto simp: scan_inv_def invalid_no_match)
next
  case (Some vh)
  with assms(1) obtain pre p post where h: "seen = pre @ (vh, p) # post" "pattern_matches d p"
    "domainPatternMatchType p = bestMatchType st" "length p = longestMatch st"
    "\<forall>c \<in> set pre. pattern_matches d (snd c) \<longrightarrow> better_pattern p (snd c)"
    "\<forall>c \<in> set post. pattern_matches d (snd c) \<longrightarrow> \<not> better_pattern (snd c) p"
    by (auto simp: scan_inv_def)
  have "pattern_matches d q \<longrightarrow> \<not> better_pattern q p"
    using assms(2) h(3,4) by (auto simp: better_pattern_def)
  then have "\<forall>c \<in> set (post @ [(vh', q)]). pattern_matches d (snd c) \<longrightarrow> \<not> better_pattern (snd c) p"
    using h(6) by auto
  moreover have "seen @ [(vh', q)] = pre @ (vh, p) # (post @ [(vh', q)])" using h(1) by simp
  ultimately show ?thesis using Some h
    unfolding scan_inv_def by (simp only: option.case) blast
qed

lemma scan_inv_step_take:
  assumes "scan_inv d seen st"
    and "\<not> MatchType_value (domainPatternMatchType q) > MatchType_value (bestMatchType st)"
    and "\<not> (domainPatternMatchType q = bestMatchType st \<and> length q \<le> longestMatch st)"
    and "pattern_matches d q"
  shows "scan_inv d (seen @ [(vh', q)])
           (st\<lparr>targetVhost := Some vh', bestMatchType := domainPatternMatchType q,
               longestMatch := length q\<rparr>)"
proof -
  have all: "\<forall>c \<in> set seen. pattern_matches d (snd c) \<longrightarrow> better_pattern q (snd c)"
  proof (cases "targetVhost st")
    case None
    with assms(1) show ?thesis by (auto simp: scan_inv_def)
  next
    case (Some vh)
    with assms(1) obtain pre p post where h: "seen = pre @ (vh, p) # post" "pattern_matches d p"
      "domainPatternMatchType p = bestMatchType st" "length p = longestMatch st"
      "\<forall>c \<in> set pre. pattern_matches d (snd c) \<longrightarrow> better_pattern p (snd c)"
      "\<forall>c \<in> set post. pattern_matches d (snd c) \<longrightarrow> \<not> better_pattern (snd c) p"
      by (auto simp: scan_inv_def)
    have qp: "better_pattern q p"
      using assms(2,3) h(3,4) unfolding better_pattern_def
      by (metis MatchType_value_inj linorder_neqE_nat not_le_imp_less)
    have "better_pattern q (snd c)" if "c \<in> set seen" "pattern_matches d (snd c)" for c
    proof -
      have "c \<in> set pre \<or> c = (vh, p) \<or> c \<in> set post"
        using that(1) h(1) by auto
      then have "\<not> better_pattern (snd c) p"
        using that(2) h(5,6) better_asym better_irrefl by fastforce
      then show ?thesis using qp better_trans by blast
    qed
    then show ?thesis by blast
  qed
  have "\<exists>pre p post. seen @ [(vh', q)] = pre @ (vh', p) # post \<and> pattern_matches d p
          \<and> domainPatternMatchType p = domainPatternMatchType q \<and> length p = length q
          \<and> (\<forall>c \<in> set pre. pattern_matches d (snd c) \<longrightarrow> better_pattern p (snd c))
          \<and> (\<forall>c \<in> set post. pattern_matches d (snd c) \<longrightarrow> \<not> better_pattern (snd c) p)"
    apply (rule exI [of _ seen], rule exI [of _ q], rule exI [of _ "[]"])
    using all assms(4) by simp
  then show ?thesis
    unfolding scan_inv_def by simp
qed

lemma scan_domains_inv:
  "scan_inv d seen st \<Longrightarrow>
   scan_inv d (seen @ map (Pair vh) ps) (scan_domains vh d ps st)"
proof (induction ps arbitrary: seen st)
  case Nil
  then show ?case by simp
next
  case (Cons q ps)
  let ?t = "domainPatternMatchType q"
  have app: "seen @ map (Pair vh) (q # ps) = (seen @ [(vh, q)]) @ map (Pair vh) ps" by simp
  show ?case
  proof (cases "MatchType_value ?t > MatchType_value (bestMatchType st)
         \<or> (?t = bestMatchType st \<and> length q \<le> longestMatch st)")
    case True
    then have "scan_inv d (seen @ [(vh, q)]) st"
      using scan_inv_step_skip [OF Cons.prems] by blast
    from Cons.IH [OF this] True show ?thesis
      unfolding app by (auto simp: Let_def)
  next
    case False
    show ?thesis
    proof (cases "pattern_matches d q")
      case m: False
      have "scan_inv d (seen @ [(vh, q)]) st"
        using scan_inv_step_skip [OF Cons.prems] m by blast
      then have 1: "scan_inv d (seen @ map (Pair vh) (q # ps)) (scan_domains vh d ps st)"
        and 2: "bestMatchType st = EXACT_MATCH \<Longrightarrow> scan_inv d (seen @ map (Pair vh) (q # ps)) st"
        unfolding app using Cons.IH scan_inv_exact_extend by blast+
      show ?thesis using False m 1 2
        by (auto simp: Let_def pattern_matches_def)
    next
      case m: True
      let ?st' = "st\<lparr>targetVhost := Some vh, bestMatchType := ?t, longestMatch := length q\<rparr>"
      have i': "scan_inv d (seen @ [(vh, q)]) ?st'"
        using scan_inv_step_take [OF Cons.prems _ _ m] False by blast
      have 1: "scan_inv d (seen @ map (Pair vh) (q # ps)) (scan_domains vh d ps ?st')"
        unfolding app using Cons.IH [OF i'] .
      have 2: "scan_inv d (seen @ map (Pair vh) (q # ps)) ?st'" if "?t = EXACT_MATCH"
        unfolding app using scan_inv_exact_extend [OF i'] that by simp
      show ?thesis using False m 1 2
        by (auto simp: Let_def pattern_matches_def)
    qed
  qed
qed

lemma scan_hosts_inv:
  "scan_inv d seen st \<Longrightarrow> scan_inv d (seen @ candidates vhs) (scan_hosts d vhs st)"
proof (induction vhs arbitrary: seen st)
  case Nil
  then show ?case by (simp add: candidates_def)
next
  case (Cons vh vhs)
  let ?st' = "scan_domains vh d (domains vh) st"
  have app: "seen @ candidates (vh # vhs) = (seen @ map (Pair vh) (domains vh)) @ candidates vhs"
    by (simp add: candidates_def)
  have i: "scan_inv d (seen @ map (Pair vh) (domains vh)) ?st'"
    using scan_domains_inv [OF Cons.prems] .
  show ?case
  proof (cases "bestMatchType ?st' = EXACT_MATCH")
    case True
    then show ?thesis unfolding app using scan_inv_exact_extend [OF i] by simp
  next
    case False
    then show ?thesis unfolding app using Cons.IH [OF i] by simp
  qed
qed

lemma scan_inv_init: "scan_inv d [] scan_init"
  by (simp add: scan_inv_def scan_init_def)

lemma find_spec: "scan_inv d (candidates vhs) (scan_hosts d vhs scan_init)"
  using scan_hosts_inv [OF scan_inv_init, of d vhs] by simp

lemma scan_domains_stop:
  assumes "pattern_matches d p" "domainPatternMatchType p = EXACT_MATCH"
    "bestMatchType st \<noteq> EXACT_MATCH"
  shows "scan_domains vh d (p # rest) st =
           st\<lparr>targetVhost := Some vh, bestMatchType := EXACT_MATCH, longestMatch := length p\<rparr>"
  using assms by (auto simp: pattern_matches_def Let_def)

lemma scan_hosts_stop:
  "bestMatchType (scan_domains vh d (domains vh) st) = EXACT_MATCH \<Longrightarrow>
   scan_hosts d (vh # rest) st = scan_domains vh d (domains vh) st"
  by simp

lemma find_None_iff:
  "findVirtualHostForDomain vhs d = None \<longleftrightarrow> (\<forall>c \<in> set (candidates vhs). \<not> pattern_matches d (snd c))"
proof (cases "findVirtualHostForDomain vhs d")
  case None
  then show ?thesis using find_spec [of d vhs]
    by (simp add: findVirtualHostForDomain_def scan_inv_def)
next
  case (Some vh)
  then have "\<exists>p. (vh, p) \<in> set (candidates vhs) \<and> pattern_matches d p"
    using find_spec [of d vhs]
    by (auto simp: findVirtualHostForDomain_def scan_inv_def)
  then show ?thesis using Some by force
qed

lemma find_Some_best:
  assumes "findVirtualHostForDomain vhs d = Some vh"
  shows "\<exists>pre p post. candidates vhs = pre @ (vh, p) # post \<and> pattern_matches d p
           \<and> (\<forall>c \<in> set pre. pattern_matches d (snd c) \<longrightarrow> better_pattern p (snd c))
           \<and> (\<forall>c \<in> set post. pattern_matches d (snd c) \<longrightarrow> \<not> better_pattern (snd c) p)"
  using assms find_spec [of d vhs]
  unfolding findVirtualHostForDomain_def scan_inv_def by (simp only: option.case) blast

text \<open>
  The functions of the code against the spec's words: the value of a pattern's match type
  is the rank of its tier, \<open>domainMatch\<close> under that type is \<open>host_matches\<close>, and the
  comparison of the two \<open>continue\<close> tests is \<open>outranks\<close>.
\<close>

lemma prefix_single: "prefix [c] p \<longleftrightarrow> p \<noteq> [] \<and> hd p = c"
  by (cases p) auto

lemma suffix_single: "suffix [c] p \<longleftrightarrow> p \<noteq> [] \<and> last p = c"
  by (cases p rule: rev_cases) (auto simp: suffix_def)

lemma tier_rank_inj: "tier_rank a = tier_rank b \<Longrightarrow> a = b"
  by (cases a; cases b) simp_all

lemma rank_refines: "MatchType_value (domainPatternMatchType p) = tier_rank (pattern_tier p)"
  by (auto simp: domainPatternMatchType_def pattern_tier_def invalid_pattern_def
      startsWith_def endsWith_def prefix_single suffix_single)

lemma MatchType_value_eq: "a = b \<longleftrightarrow> MatchType_value a = MatchType_value b"
  using MatchType_value_inj by auto

lemma tier_rank_eq: "a = b \<longleftrightarrow> tier_rank a = tier_rank b"
  using tier_rank_inj by auto

lemma type_eq_refines:
  "domainPatternMatchType p = domainPatternMatchType q \<longleftrightarrow> pattern_tier p = pattern_tier q"
  by (simp add: MatchType_value_eq [of "domainPatternMatchType p"]
      tier_rank_eq [of "pattern_tier p"] rank_refines)

lemma type_refines:
  "domainPatternMatchType p = EXACT_MATCH \<longleftrightarrow> pattern_tier p = Exact_tier"
  "domainPatternMatchType p = SUFFIX_MATCH \<longleftrightarrow> pattern_tier p = Suffix_tier"
  "domainPatternMatchType p = PREFIX_MATCH \<longleftrightarrow> pattern_tier p = Prefix_tier"
  "domainPatternMatchType p = UNIVERSE_MATCH \<longleftrightarrow> pattern_tier p = Universal_tier"
  "domainPatternMatchType p = INVALID_MATCH \<longleftrightarrow> pattern_tier p = Invalid_tier"
  by (simp_all add: MatchType_value_eq [of "domainPatternMatchType p"]
      tier_rank_eq [of "pattern_tier p"] rank_refines)

lemma outranks_refines: "better_pattern p q = outranks p q"
  by (simp add: better_pattern_def outranks_def rank_refines type_eq_refines)

lemma matches_refines: "pattern_matches d p = host_matches d p"
  by (auto simp: pattern_matches_def host_matches_def domainPatternMatchType_def
      pattern_tier_def invalid_pattern_def startsWith_def endsWith_def prefix_single
      suffix_single substring_from1_def substring_but_last_def butlast_conv_take drop_Suc)

lemma invalid_pattern_tier: "invalid_pattern p \<longleftrightarrow> pattern_tier p = Invalid_tier"
  by (simp add: pattern_tier_def)

lemmas domain_defs =
  findVirtualHostForDomain_def scan_init_def domainPatternMatchType_def startsWith_def
  endsWith_def suffix_to_prefix substring_from1_def substring_but_last_def Let_def

lemmas tier_defs =
  host_matches_def outranks_def pattern_tier_def invalid_pattern_def suffix_to_prefix

text \<open>
  C5, as stated, fails on "invalid patterns never match". The pattern \<open>a*b*\<close> has a \<open>*\<close> that
  is neither its only nor its first nor its last character, which makes it invalid in the
  spec's words. The code takes it for a prefix pattern, since it ends with \<open>*\<close>, and the
  virtual host that holds it is returned for the host name \<open>a*bX\<close>.
\<close>

theorem C5_interior_star_counterexample:
  "invalid_by_position ''a*b*''
   \<and> findVirtualHostForDomain interior_star_vhosts ''a*bX''
       = Some \<lparr>domains = [''a*b*''], routes = []\<rparr>"
  by (simp add: invalid_by_position_def interior_star_vhosts_def domain_defs)

text \<open>
  C5, amended. A pattern without \<open>*\<close> is exact, \<open>*\<close> alone is universal, any other pattern
  that starts with \<open>*\<close> is a suffix pattern and any other pattern that ends with \<open>*\<close> is a
  prefix pattern, whatever further \<open>*\<close> it contains (what follows the leading \<open>*\<close>, or
  precedes the trailing \<open>*\<close>, is compared character by character); invalid are the empty
  pattern and the patterns that contain \<open>*\<close> but neither start nor end with it. With these
  tiers, ranked exact, suffix, prefix, universal, invalid from best to worst: the domain
  matcher returns no virtual host exactly when no pattern of any virtual host matches the
  host name. Otherwise the returned virtual host holds a matching pattern such that, in
  scan order (virtual hosts in list order, patterns in list order), every matching pattern
  seen before it is outranked by it (a worse tier, or the same tier and shorter), and no
  matching pattern after it outranks it: the best tier wins, then the greater length, then
  the first seen. Invalid patterns never match: a list that holds only invalid patterns
  yields no virtual host. The scan stops at an exact match: when it reaches a pattern
  equal to the host name the patterns after it are not looked at, and the virtual hosts
  after one that gave an exact match are not looked at.
\<close>

theorem C5_domain_matcher_precedence:
  "(findVirtualHostForDomain vhs d = None \<longleftrightarrow>
      (\<forall>c \<in> set (candidates vhs). \<not> host_matches d (snd c)))
   \<and> (\<forall>vh. findVirtualHostForDomain vhs d = Some vh \<longrightarrow>
        (\<exists>pre p post. candidates vhs = pre @ (vh, p) # post \<and> host_matches d p
           \<and> (\<forall>c \<in> set pre. host_matches d (snd c) \<longrightarrow> outranks p (snd c))
           \<and> (\<forall>c \<in> set post. host_matches d (snd c) \<longrightarrow> \<not> outranks (snd c) p)))
   \<and> ((\<forall>c \<in> set (candidates vhs). invalid_pattern (snd c)) \<longrightarrow>
        findVirtualHostForDomain vhs d = None)
   \<and> (\<forall>vh rest (st::scan_state). pattern_tier d = Exact_tier
          \<and> bestMatchType st \<noteq> EXACT_MATCH \<longrightarrow>
        scan_domains vh d (d # rest) st =
          st\<lparr>targetVhost := Some vh, bestMatchType := EXACT_MATCH, longestMatch := length d\<rparr>)
   \<and> (\<forall>vh rest (st::scan_state). bestMatchType (scan_domains vh d (domains vh) st) = EXACT_MATCH \<longrightarrow>
        scan_hosts d (vh # rest) st = scan_domains vh d (domains vh) st)"
proof (intro conjI allI impI)
  show "findVirtualHostForDomain vhs d = None \<longleftrightarrow>
      (\<forall>c \<in> set (candidates vhs). \<not> host_matches d (snd c))"
    using find_None_iff [of vhs d] by (simp only: matches_refines)
next
  assume "\<forall>c \<in> set (candidates vhs). invalid_pattern (snd c)"
  then have "\<forall>c \<in> set (candidates vhs). \<not> host_matches d (snd c)"
    by (simp add: invalid_pattern_tier host_matches_def)
  then show "findVirtualHostForDomain vhs d = None"
    using find_None_iff [of vhs d] by (simp only: matches_refines)
next
  fix vh assume "findVirtualHostForDomain vhs d = Some vh"
  from find_Some_best [OF this]
  show "\<exists>pre p post. candidates vhs = pre @ (vh, p) # post \<and> host_matches d p
           \<and> (\<forall>c \<in> set pre. host_matches d (snd c) \<longrightarrow> outranks p (snd c))
           \<and> (\<forall>c \<in> set post. host_matches d (snd c) \<longrightarrow> \<not> outranks (snd c) p)"
    by (simp only: matches_refines outranks_refines)
next
  fix vh rest and st :: scan_state
  assume a: "pattern_tier d = Exact_tier \<and> bestMatchType st \<noteq> EXACT_MATCH"
  then have "pattern_matches d d" "domainPatternMatchType d = EXACT_MATCH"
    by (simp_all add: matches_refines host_matches_def type_refines)
  then show "scan_domains vh d (d # rest) st =
          st\<lparr>targetVhost := Some vh, bestMatchType := EXACT_MATCH, longestMatch := length d\<rparr>"
    using a scan_domains_stop by blast
next
  fix vh rest and st :: scan_state
  assume "bestMatchType (scan_domains vh d (domains vh) st) = EXACT_MATCH"
  then show "scan_hosts d (vh # rest) st = scan_domains vh d (domains vh) st"
    by (rule scan_hosts_stop)
qed

lemma example_find:
  "findVirtualHostForDomain example_vhosts ''a.example.com''
     = Some \<lparr>domains = [''a.example.com'', ''a.example.com''], routes = []\<rparr>"
  by (simp add: example_vhosts_def domain_defs)

lemma order_find:
  "findVirtualHostForDomain order_vhosts ''a.example.com''
     = Some \<lparr>domains = [''*.com''], routes = []\<rparr>"
  by (simp add: order_vhosts_def domain_defs)

theorem C5_domain_matcher_precedence_witness:
  "findVirtualHostForDomain order_vhosts ''a.example.com''
     = Some \<lparr>domains = [''*.com''], routes = []\<rparr>
   \<and> pattern_tier ''a.example.*'' = Prefix_tier
   \<and> pattern_tier ''*.com'' = Suffix_tier
   \<and> host_matches ''a.example.com'' ''a.example.*''
   \<and> host_matches ''a.example.com'' ''*.com''
   \<and> outranks ''*.com'' ''a.example.*''
   \<and> pattern_tier ''a.example.com'' = Exact_tier
   \<and> bestMatchType scan_init \<noteq> EXACT_MATCH
   \<and> scan_domains \<lparr>domains = [''a.example.com'', ''a.example.com''], routes = []\<rparr> ''a.example.com''
        [''a.example.com'', ''a.example.com''] scan_init
      = scan_init\<lparr>targetVhost := Some \<lparr>domains = [''a.example.com'', ''a.example.com''], routes = []\<rparr>,
                  bestMatchType := EXACT_MATCH, longestMatch := 13\<rparr>"
proof -
  have t: "pattern_tier ''a.example.*'' = Prefix_tier" "pattern_tier ''*.com'' = Suffix_tier"
    "pattern_tier ''a.example.com'' = Exact_tier"
    by (simp_all add: pattern_tier_def invalid_pattern_def)
  have m: "host_matches ''a.example.com'' ''a.example.*''"
    "host_matches ''a.example.com'' ''*.com''"
    by (simp_all add: host_matches_def t suffix_to_prefix)
  have b: "bestMatchType scan_init \<noteq> EXACT_MATCH"
    by (simp add: scan_init_def)
  have cands: "candidates order_vhosts
      = [(\<lparr>domains = [''a.example.*''], routes = []\<rparr>, ''a.example.*''),
         (\<lparr>domains = [''*.com''], routes = []\<rparr>, ''*.com'')]"
    by (simp add: candidates_def order_vhosts_def)
  note c5 = C5_domain_matcher_precedence [of order_vhosts "''a.example.com''"]
  from c5 order_find obtain pre p post where
    h: "candidates order_vhosts = pre @ (\<lparr>domains = [''*.com''], routes = []\<rparr>, p) # post"
       "\<forall>c \<in> set pre. host_matches ''a.example.com'' (snd c) \<longrightarrow> outranks p (snd c)"
    by blast
  from h(1) have "pre = [(\<lparr>domains = [''a.example.*''], routes = []\<rparr>, ''a.example.*'')]
      \<and> p = ''*.com''"
    unfolding cands by (auto simp: Cons_eq_append_conv)
  with h(2) m(1) have 1: "outranks ''*.com'' ''a.example.*''" by simp
  from c5 t(3) b have 2: "scan_domains \<lparr>domains = [''a.example.com'', ''a.example.com''], routes = []\<rparr> ''a.example.com''
        (''a.example.com'' # [''a.example.com'']) scan_init
      = scan_init\<lparr>targetVhost := Some \<lparr>domains = [''a.example.com'', ''a.example.com''], routes = []\<rparr>,
                  bestMatchType := EXACT_MATCH, longestMatch := length ''a.example.com''\<rparr>"
    by blast
  show ?thesis using order_find t m 1 2 b by simp
qed

text \<open>
  The precedence on the patterns of three virtual hosts, the longer suffix winning, and
  each tier winning over the next one when the better pattern is the shorter one and comes
  last.
\<close>

lemma example_precedence:
  "findVirtualHostForDomain
     [\<lparr>domains = [''*.example.com''], routes = []\<rparr>,
      \<lparr>domains = [''a.example.com''], routes = []\<rparr>,
      \<lparr>domains = [''*''], routes = []\<rparr>] ''b.example.com''
     = Some \<lparr>domains = [''*.example.com''], routes = []\<rparr>"
  "findVirtualHostForDomain
     [\<lparr>domains = [''*.example.com''], routes = []\<rparr>,
      \<lparr>domains = [''a.example.com''], routes = []\<rparr>,
      \<lparr>domains = [''*''], routes = []\<rparr>] ''other.org''
     = Some \<lparr>domains = [''*''], routes = []\<rparr>"
  "findVirtualHostForDomain
     [\<lparr>domains = [''*.foo.com''], routes = []\<rparr>,
      \<lparr>domains = [''*.sub.foo.com''], routes = []\<rparr>] ''x.sub.foo.com''
     = Some \<lparr>domains = [''*.sub.foo.com''], routes = []\<rparr>"
  "findVirtualHostForDomain
     [\<lparr>domains = [''*.a.example.com''], routes = []\<rparr>,
      \<lparr>domains = [''a.b''], routes = []\<rparr>] ''a.b''
     = Some \<lparr>domains = [''a.b''], routes = []\<rparr>"
  "findVirtualHostForDomain
     [\<lparr>domains = [''*''], routes = []\<rparr>,
      \<lparr>domains = [''a.*''], routes = []\<rparr>] ''a.b''
     = Some \<lparr>domains = [''a.*''], routes = []\<rparr>"
  "findVirtualHostForDomain
     [\<lparr>domains = [''''], routes = []\<rparr>,
      \<lparr>domains = [''a*b''], routes = []\<rparr>] ''a*b''
     = None"
  by (simp_all add: domain_defs)

text \<open>The same examples in the spec's words.\<close>

lemma example_tiers:
  "pattern_tier ''a.example.com'' = Exact_tier"
  "pattern_tier ''*.example.com'' = Suffix_tier"
  "pattern_tier ''a.example.*'' = Prefix_tier"
  "pattern_tier ''*'' = Universal_tier"
  "pattern_tier '''' = Invalid_tier"
  "pattern_tier ''a*b'' = Invalid_tier"
  "host_matches ''b.example.com'' ''*.example.com''"
  "\<not> host_matches ''b.example.com'' ''a.example.com''"
  "host_matches ''other.org'' ''*''"
  "outranks ''*.sub.foo.com'' ''*.foo.com''"
  "outranks ''a.b'' ''*.a.example.com''"
  "outranks ''a.*'' ''*''"
  by (simp_all add: tier_defs)

section \<open>Resolving call: proofs\<close>

lemma user_op_unbound:
  "child s = None \<Longrightarrow>
   child (user_op u s) = None \<and> ended (user_op u s) = ended s
   \<and> metadata (user_op u s) = metadata s \<and> listener (user_op u s) = listener s
   \<and> readPending (user_op u s) = (readPending s \<or> u = call_startRead)
   \<and> pendingHalfClose (user_op u s) = (pendingHalfClose s \<or> u = call_halfClose)
   \<and> pendingMessage (user_op u s) = last_message [u] (pendingMessage s)"
  by (cases u) (simp_all add: startRead_def sendMessageWithContext_def halfClose_def)

lemma fold_user_op_unbound:
  "child s = None \<Longrightarrow>
   child (fold user_op ops s) = None \<and> ended (fold user_op ops s) = ended s
   \<and> metadata (fold user_op ops s) = metadata s \<and> listener (fold user_op ops s) = listener s
   \<and> readPending (fold user_op ops s) = (readPending s \<or> call_startRead \<in> set ops)
   \<and> pendingHalfClose (fold user_op ops s) = (pendingHalfClose s \<or> call_halfClose \<in> set ops)
   \<and> pendingMessage (fold user_op ops s) = last_message ops (pendingMessage s)"
proof (induction ops arbitrary: s)
  case Nil
  then show ?case by simp
next
  case (Cons u ops)
  note step = user_op_unbound [OF Cons.prems, of u]
  from step have c: "child (user_op u s) = None" by simp
  show ?case using Cons.IH [OF c] step by (cases u) auto
qed

lemma getConfig_binds:
  assumes "\<not> ended s" "metadata s = Some md" "listener s = Some l" "config_status config = OK"
  shows "\<exists>s'. getConfig ce (SUCCESS config) s = Inr s'
           \<and> (\<exists>c. child s' = Some c \<and> inner_ops c = replay_ops md s)"
  using assms by (simp add: getConfig_def Let_def replay_ops_def split: option.splits prod.splits)

text \<open>
  C6. A started, unbound call on which read-start, sends and half-close were requested in any
  order binds on a successful configuration, and the inner call then receives \<open>start\<close>,
  then the read-start if one was requested, then the one buffered message (the last one
  sent) if any, then the half-close if one was requested: in this order, each once.
\<close>

theorem C6_replay_order:
  assumes "child s = None" "\<not> ended s" "metadata s = Some md" "listener s = Some l"
    and "config_status config = OK"
  shows "\<exists>s' c. getConfig ce (SUCCESS config) (fold user_op ops s) = Inr s'
           \<and> child s' = Some c
           \<and> inner_ops c =
               [child_start md]
               @ (if readPending s \<or> call_startRead \<in> set ops then [child_startRead] else [])
               @ (case last_message ops (pendingMessage s) of
                    Some (context, message) \<Rightarrow> [child_sendMessageWithContext context message]
                  | None \<Rightarrow> [])
               @ (if pendingHalfClose s \<or> call_halfClose \<in> set ops then [child_halfClose] else [])"
proof -
  let ?t = "fold user_op ops s"
  note f = fold_user_op_unbound [OF assms(1), of ops]
  have "\<not> ended ?t" "metadata ?t = Some md" "listener ?t = Some l"
    using f assms by simp_all
  from getConfig_binds [OF this assms(5), of ce]
  obtain s' c where b: "getConfig ce (SUCCESS config) ?t = Inr s'" "child s' = Some c"
    "inner_ops c = replay_ops md ?t" by blast
  have "replay_ops md ?t =
               [child_start md]
               @ (if readPending s \<or> call_startRead \<in> set ops then [child_startRead] else [])
               @ (case last_message ops (pendingMessage s) of
                    Some (context, message) \<Rightarrow> [child_sendMessageWithContext context message]
                  | None \<Rightarrow> [])
               @ (if pendingHalfClose s \<or> call_halfClose \<in> set ops then [child_halfClose] else [])"
    using f by (simp add: replay_ops_def)
  with b show ?thesis by simp
qed

lemma example_call_fields:
  "child example_call = None" "\<not> ended example_call"
  "metadata example_call = Some new_Metadata" "listener example_call = Some 3"
  "readPending example_call = False" "pendingMessage example_call = None"
  "pendingHalfClose example_call = False" "statusWatchers example_call = [7]"
  "watcher_calls example_call = []" "nextTick_queue example_call = []"
  by (simp_all add: example_call_def new_ResolvingCall_def constructor_body_def example_options_def
      runDeadlineTimer_def clearTimeout_def addStatusWatcher_def Let_def)

theorem C6_replay_order_witness:
  "child example_call = None \<and> \<not> ended example_call
   \<and> metadata example_call = Some new_Metadata \<and> listener example_call = Some 3
   \<and> config_status example_config = OK
   \<and> (\<exists>s' c. getConfig example_call_env (SUCCESS example_config)
                (fold user_op [call_halfClose, call_sendMessage 0 ''m1'', call_startRead] example_call)
              = Inr s'
         \<and> child s' = Some c
         \<and> inner_ops c = [child_start new_Metadata, child_startRead,
                           child_sendMessageWithContext 0 ''m1'', child_halfClose])"
proof -
  have k: "config_status example_config = OK" by (simp add: example_config_def)
  show ?thesis
    using C6_replay_order [OF example_call_fields(1-4) k, of example_call_env
        "[call_halfClose, call_sendMessage 0 ''m1'', call_startRead]"]
      example_call_fields k
    by simp
qed








lemma getConfig_leaves_timers:
  "getConfig ce r s = Inr s' \<Longrightarrow>
   timers s' = timers s \<and> deadlineTimer s' = deadlineTimer s
   \<and> handleDeadline \<notin> set (nextTick_queue s') - set (nextTick_queue s)"
  by (auto simp: getConfig_def outputStatus_def queueCallForConfig_def Let_def
      split: if_splits option.splits GetConfigResult.splits prod.splits)

lemma runDeadlineTimer_fresh:
  assumes "timers s = [\<lparr>timer_id = 0, timer_task = noop, timer_delay = 0\<rparr>]"
    and "deadlineTimer s = 0" and "next_timer_id s = 1" and "nextTick_queue s = []"
  shows "deadline (runDeadlineTimer ce s) = deadline s
         \<and> (case deadline s of
              Infinity \<Rightarrow>
                timers (runDeadlineTimer ce s) = [] \<and> nextTick_queue (runDeadlineTimer ce s) = []
            | At t \<Rightarrow>
                if t \<le> now ce
                then timers (runDeadlineTimer ce s) = []
                     \<and> nextTick_queue (runDeadlineTimer ce s) = [handleDeadline]
                else timers (runDeadlineTimer ce s)
                       = [\<lparr>timer_id = 1, timer_task = handleDeadline, timer_delay = t - now ce\<rparr>]
                     \<and> deadlineTimer (runDeadlineTimer ce s) = 1
                     \<and> nextTick_queue (runDeadlineTimer ce s) = [])"
  using assms
  by (cases "deadline s")
     (simp_all add: runDeadlineTimer_def clearTimeout_def getRelativeTimeout_def Let_def)

lemma constructor_body_fields:
  "timers (constructor_body ce meth options creds number)
     = [\<lparr>timer_id = 0, timer_task = noop, timer_delay = 0\<rparr>]"
  "deadlineTimer (constructor_body ce meth options creds number) = 0"
  "next_timer_id (constructor_body ce meth options creds number) = 1"
  "nextTick_queue (constructor_body ce meth options creds number) = []"
  "deadline (constructor_body ce meth options creds number) =
     (case parentCall options of
        Some parent \<Rightarrow>
          if flags options AND Propagate_DEADLINE ce \<noteq> 0
          then minDeadline (options_deadline options) (parent_deadline parent)
          else options_deadline options
      | None \<Rightarrow> options_deadline options)"
  by (simp_all add: constructor_body_def Let_def split: option.splits)

lemma constructor_arms_timer:
  assumes "new_ResolvingCall ce meth options creds number = s"
  shows "deadline s =
           (case parentCall options of
              Some parent \<Rightarrow>
                if flags options AND Propagate_DEADLINE ce \<noteq> 0
                then minDeadline (options_deadline options) (parent_deadline parent)
                else options_deadline options
            | None \<Rightarrow> options_deadline options)
         \<and> (case deadline s of
              Infinity \<Rightarrow> timers s = [] \<and> nextTick_queue s = []
            | At t \<Rightarrow>
                if t \<le> now ce then timers s = [] \<and> nextTick_queue s = [handleDeadline]
                else timers s
                       = [\<lparr>timer_id = 1, timer_task = handleDeadline, timer_delay = t - now ce\<rparr>]
                     \<and> deadlineTimer s = 1 \<and> nextTick_queue s = [])"
proof -
  let ?b = "constructor_body ce meth options creds number"
  note f = runDeadlineTimer_fresh [OF constructor_body_fields(1-4), where ce = ce]
  have s: "s = runDeadlineTimer ce ?b" using assms by (simp add: new_ResolvingCall_def)
  from f have d: "deadline s = deadline ?b" by (simp add: s)
  show ?thesis
    using f unfolding d constructor_body_fields(5) s by simp
qed

text \<open>
  C4 holds at construction (\<open>constructor_arms_timer\<close>: the timer is armed against the
  deadline after parent propagation) and fails on the code for the configuration merge. A
  call constructed with no deadline holds no deadline timer. A method-config timeout of one
  second, merged at time 1000, moves the effective deadline from \<open>Infinity\<close> to 2000, and
  \<open>getConfig\<close> returns with no timer and no expiry scheduled, where \<open>runDeadlineTimer\<close> on
  the same state arms a timer of 1000 milliseconds.
\<close>

theorem C4_config_merge_does_not_rearm:
  "\<exists>s'. getConfig example_call_env (SUCCESS example_config) example_call = Inr s'
     \<and> deadline example_call = Infinity \<and> deadline s' = At 2000
     \<and> timers example_call = [] \<and> timers s' = [] \<and> nextTick_queue s' = []
     \<and> timers (runDeadlineTimer example_call_env s')
         = [\<lparr>timer_id = 1, timer_task = handleDeadline, timer_delay = 1000\<rparr>]"
  by (simp add: getConfig_def example_call_def example_config_def example_call_env_def
      new_ResolvingCall_def constructor_body_def example_options_def runDeadlineTimer_def clearTimeout_def
      addStatusWatcher_def getRelativeTimeout_def Let_def replay_ops_def)

section \<open>Predicate compiler: proofs\<close>

lemma valueChecker_of_Inl_iff:
  "(\<exists>err. valueChecker_of e spec = Inl err)
     \<longleftrightarrow> (\<exists>r. spec = safe_regex_match r \<and> RE2 e (''^'' @ r @ ''$'') ''u'' = None)"
  by (cases spec) (auto split: option.splits)

lemma valueChecker_of_None_iff:
  "valueChecker_of e spec = Inr None \<longleftrightarrow> spec = other_header_match"
  by (cases spec) (auto split: option.splits)

lemma getPredicateForHeaderMatcher_returns:
  "(\<exists>p. getPredicateForHeaderMatcher e hm = Inr p)
     \<longleftrightarrow> \<not> (\<exists>r. header_match_specifier hm = safe_regex_match r
                \<and> RE2 e (''^'' @ r @ ''$'') ''u'' = None)"
proof -
  have "(\<exists>p. getPredicateForHeaderMatcher e hm = Inr p)
          \<longleftrightarrow> \<not> (\<exists>err. valueChecker_of e (header_match_specifier hm) = Inl err)"
    by (auto simp: getPredicateForHeaderMatcher_def split: sum.splits option.splits)
  then show ?thesis by (simp only: valueChecker_of_Inl_iff)
qed

text \<open>
  C3 as stated fails: a presence rule on the header \<open>trace-bin\<close> with the invert flag set
  compiles to a predicate that returns true.
\<close>

theorem C3_bin_header_never_matches_counterexample:
  "endsWith (name example_bin_header) ''-bin''
   \<and> invert_match example_bin_header
   \<and> apply_header_rule example_env example_bin_header ''/pkg.Service/Method'' new_Metadata
       = Inr True"
  by (simp add: example_bin_header_def apply_header_rule_def getPredicateForHeaderMatcher_def
      headerMatcher_def endsWith_def suffix_to_prefix)

text \<open>
  C3, amended. A compiled header rule whose header name ends in \<open>-bin\<close> is a constant
  predicate: it returns false for every method name and metadata when the invert flag is
  unset, and true for every method name and metadata when the invert flag is set, since the
  flag negates the whole per-header result; a rule of an unsupported match kind returns
  false whatever the flag. The rule compiles unless its regular expression is rejected.
\<close>

theorem C3_bin_header_constant:
  assumes "endsWith (name hm) ''-bin''"
  shows "((\<exists>p. getPredicateForHeaderMatcher e hm = Inr p)
            \<longleftrightarrow> \<not> (\<exists>r. header_match_specifier hm = safe_regex_match r
                       \<and> RE2 e (''^'' @ r @ ''$'') ''u'' = None))
         \<and> (\<forall>p. getPredicateForHeaderMatcher e hm = Inr p \<longrightarrow>
               (\<forall>methodName metadata.
                  p methodName metadata
                    = (invert_match hm \<and> header_match_specifier hm \<noteq> other_header_match)))"
proof (intro conjI allI impI)
  show "(\<exists>p. getPredicateForHeaderMatcher e hm = Inr p)
            \<longleftrightarrow> \<not> (\<exists>r. header_match_specifier hm = safe_regex_match r
                       \<and> RE2 e (''^'' @ r @ ''$'') ''u'' = None)"
    by (rule getPredicateForHeaderMatcher_returns)
next
  fix p methodName metadata
  assume p: "getPredicateForHeaderMatcher e hm = Inr p"
  show "p methodName metadata
          = (invert_match hm \<and> header_match_specifier hm \<noteq> other_header_match)"
  proof (cases "valueChecker_of e (header_match_specifier hm)")
    case (Inl err)
    with p show ?thesis by (simp add: getPredicateForHeaderMatcher_def)
  next
    case (Inr vc)
    show ?thesis
    proof (cases vc)
      case None
      with Inr have "header_match_specifier hm = other_header_match"
        by (simp add: valueChecker_of_None_iff)
      moreover from None Inr p have "p = (\<lambda>methodName metadata. False)"
        by (simp add: getPredicateForHeaderMatcher_def)
      ultimately show ?thesis by simp
    next
      case (Some valueChecker)
      with Inr have "header_match_specifier hm \<noteq> other_header_match"
        using valueChecker_of_None_iff [of e "header_match_specifier hm"] by auto
      moreover from Some Inr p assms have "p methodName metadata = invert_match hm"
        by (auto simp: getPredicateForHeaderMatcher_def headerMatcher_def split: if_splits)
      ultimately show ?thesis by simp
    qed
  qed
qed

theorem C3_bin_header_constant_witness:
  "endsWith (name example_bin_header) ''-bin''
   \<and> getPredicateForHeaderMatcher example_env example_bin_header
       = Inr (\<lambda>methodName metadata.
                \<not> headerMatcher example_bin_header (\<lambda>value. True) methodName metadata)
   \<and> (\<not> headerMatcher example_bin_header (\<lambda>value. True) ''/pkg.Service/Method'' new_Metadata)
       = (invert_match example_bin_header
          \<and> header_match_specifier example_bin_header \<noteq> other_header_match)
   \<and> invert_match example_bin_header
   \<and> header_match_specifier example_bin_header \<noteq> other_header_match"
proof -
  have a: "endsWith (name example_bin_header) ''-bin''"
    by (simp add: example_bin_header_def endsWith_def suffix_to_prefix)
  have b: "getPredicateForHeaderMatcher example_env example_bin_header
       = Inr (\<lambda>methodName metadata.
                \<not> headerMatcher example_bin_header (\<lambda>value. True) methodName metadata)"
    by (simp add: example_bin_header_def getPredicateForHeaderMatcher_def)
  have c: "invert_match example_bin_header
           \<and> header_match_specifier example_bin_header \<noteq> other_header_match"
    by (simp add: example_bin_header_def)
  from C3_bin_header_constant [OF a, of example_env] b
  have "(\<not> headerMatcher example_bin_header (\<lambda>value. True) ''/pkg.Service/Method'' new_Metadata)
       = (invert_match example_bin_header
          \<and> header_match_specifier example_bin_header \<noteq> other_header_match)"
    by blast
  with a b c show ?thesis by blast
qed

text \<open>The numeric range rule \<open>[10, 20)\<close> on the values 15, 20 and abc.\<close>

lemma range_match_examples:
  "apply_header_rule example_env
     \<lparr>name = ''x-limit'', header_match_specifier = range_match 10 20, invert_match = False\<rparr>
     ''/m'' \<lparr>get = (\<lambda>k. [''15'']), waitForReady = False\<rparr> = Inr True"
  "apply_header_rule example_env
     \<lparr>name = ''x-limit'', header_match_specifier = range_match 10 20, invert_match = False\<rparr>
     ''/m'' \<lparr>get = (\<lambda>k. [''20'']), waitForReady = False\<rparr> = Inr False"
  "apply_header_rule example_env
     \<lparr>name = ''x-limit'', header_match_specifier = range_match 10 20, invert_match = False\<rparr>
     ''/m'' \<lparr>get = (\<lambda>k. [''abc'']), waitForReady = False\<rparr> = Inr False"
  by (simp_all add: apply_header_rule_def getPredicateForHeaderMatcher_def headerMatcher_def
      endsWith_def suffix_to_prefix all_digits_def is_digit_def digits_value_def Let_def)

section \<open>Cluster selector: proofs\<close>

lemma build_choices_cdf:
  "build_choices cws lastNumerator clusterChoices acc
     = (clusterChoices @ cdf lastNumerator cws, fold set_add (map cw_name cws) acc)"
  by (induction cws arbitrary: lastNumerator clusterChoices acc)
     (simp_all add: Let_def weight_value_def)

lemma set_fold_set_add: "set (fold set_add xs acc) = set acc \<union> set xs"
  by (induction xs arbitrary: acc) (auto simp: set_add_def)

lemma distinct_fold_set_add: "distinct acc \<Longrightarrow> distinct (fold set_add xs acc)"
  by (induction xs arbitrary: acc) (auto simp: set_add_def)

lemma pick_choice_cdf:
  assumes "real lastNumerator \<le> r"
    and "r < real (lastNumerator + sum_list (map weight_value cws))"
  shows "\<exists>pre cw post. cws = pre @ cw # post
           \<and> pick_choice r (cdf lastNumerator cws) = Some (cw_name cw)
           \<and> real (lastNumerator + sum_list (map weight_value pre)) \<le> r
           \<and> r < real (lastNumerator + sum_list (map weight_value (pre @ [cw])))"
  using assms
proof (induction cws arbitrary: lastNumerator)
  case Nil
  then show ?case by simp
next
  case (Cons cw cws)
  show ?case
  proof (cases "r < real (lastNumerator + weight_value cw)")
    case True
    have "cw # cws = [] @ cw # cws
           \<and> pick_choice r (cdf lastNumerator (cw # cws)) = Some (cw_name cw)
           \<and> real (lastNumerator + sum_list (map weight_value [])) \<le> r
           \<and> r < real (lastNumerator + sum_list (map weight_value ([] @ [cw])))"
      using True Cons.prems by simp
    then show ?thesis by blast
  next
    case False
    then have lo: "real (lastNumerator + weight_value cw) \<le> r" by simp
    have hi: "r < real (lastNumerator + weight_value cw + sum_list (map weight_value cws))"
      using Cons.prems(2) by (simp add: add.assoc)
    from Cons.IH [OF lo hi] obtain pre c post where
      h: "cws = pre @ c # post"
         "pick_choice r (cdf (lastNumerator + weight_value cw) cws) = Some (cw_name c)"
         "real (lastNumerator + weight_value cw + sum_list (map weight_value pre)) \<le> r"
         "r < real (lastNumerator + weight_value cw + sum_list (map weight_value (pre @ [c])))"
      by blast
    have "cw # cws = (cw # pre) @ c # post
           \<and> pick_choice r (cdf lastNumerator (cw # cws)) = Some (cw_name c)
           \<and> real (lastNumerator + sum_list (map weight_value (cw # pre))) \<le> r
           \<and> r < real (lastNumerator + sum_list (map weight_value ((cw # pre) @ [c])))"
      using h False by (simp add: add.assoc)
    then show ?thesis by blast
  qed
qed

lemma sum_take_le:
  "k \<le> length pre \<Longrightarrow>
   sum_list (map weight_value (take k (pre @ rest))) \<le> sum_list (map weight_value pre)"
proof -
  assume k: "k \<le> length pre"
  have "pre = take k pre @ drop k pre" by simp
  then have "sum_list (map weight_value pre)
      = sum_list (map weight_value (take k pre)) + sum_list (map weight_value (drop k pre))"
    by (metis map_append sum_list.append)
  then show ?thesis using k by simp
qed

lemma draw_below_sum:
  assumes "draws_in_range rnd" "T \<le> S" "0 < S"
  shows "0 \<le> rnd n T \<and> rnd n T < real S"
proof -
  from assms(1) have u: "0 \<le> rnd n T" "0 < T \<longrightarrow> rnd n T < real T" "rnd n 0 = 0"
    unfolding draws_in_range_def by blast+
  show ?thesis
  proof (cases "T = 0")
    case True
    with assms(3) u(3) show ?thesis by simp
  next
    case False
    with u(2) have "rnd n T < real T" by simp
    moreover have "real T \<le> real S" using assms(2) by simp
    ultimately show ?thesis using u(1) by simp
  qed
qed

lemma draws_in_range_half: "draws_in_range half"
  by (simp add: draws_in_range_def half_def)

text \<open>
  C8, as stated, fails. With a declared total weight of 0 and the single cluster \<open>A\<close> of
  weight 0 the weights add up to the effective total weight, the draw \<open>Math.random() * 0\<close>
  is 0, no cumulative bound exceeds it, and the action returns the empty cluster name.
\<close>

theorem C8_zero_total_counterexample:
  "effective_total_weight (Some 0) \<le> sum_list (map weight_value zero_weights)
   \<and> build_choices zero_weights 0 [] []
       = ([\<lparr>choice_cluster = ''A'', choice_numerator = 0\<rparr>], [''A''])
   \<and> half 0 (effective_total_weight (Some 0)) = 0
   \<and> weighted_action [\<lparr>choice_cluster = ''A'', choice_numerator = 0\<rparr>] (Some 0) half 0
       = ('''', 1)"
  by (simp add: effective_total_weight_def zero_weights_def weight_value_def set_add_def
      weighted_action_def half_def Let_def)

text \<open>
  C8, amended. Let \<open>totalWeight\<close> be the declared total weight of a weighted-cluster
  action, or 100 when none is declared, and let the weights of its clusters add up to at
  least \<open>totalWeight\<close> and not be all zero. Then every selection, whose draw \<open>r\<close> is
  \<open>Math.random() * totalWeight\<close>, returns the name of a declared cluster: the first cluster
  in declaration order whose cumulative weight bound exceeds \<open>r\<close> (the bounds of all
  clusters before it do not). The branch that returns the empty name is not reached.
\<close>

theorem C8_weighted_selection:
  assumes "draws_in_range rnd"
    and "totalWeight = (case total_weight of Some v \<Rightarrow> v | None \<Rightarrow> 100)"
    and "totalWeight \<le> sum_list (map weight_value cws)"
    and "0 < sum_list (map weight_value cws)"
    and "build_choices cws 0 [] acc = (clusterChoices, acc')"
  shows "\<exists>pre cw post. cws = pre @ cw # post
           \<and> weighted_action clusterChoices total_weight rnd n = (cw_name cw, Suc n)
           \<and> cw_name cw \<in> set (map cw_name cws)
           \<and> rnd n totalWeight < real (sum_list (map weight_value (pre @ [cw])))
           \<and> (\<forall>k \<le> length pre. real (sum_list (map weight_value (take k cws))) \<le> rnd n totalWeight)"
proof -
  let ?r = "rnd n totalWeight"
  have tot: "effective_total_weight total_weight = totalWeight"
    using assms(2) by (simp add: effective_total_weight_def)
  have cc: "clusterChoices = cdf 0 cws"
    using assms(5) by (simp add: build_choices_cdf)
  have rng: "0 \<le> ?r \<and> ?r < real (sum_list (map weight_value cws))"
    by (rule draw_below_sum [OF assms(1,3,4)])
  have lo: "real 0 \<le> ?r" using rng by simp
  have hi: "?r < real (0 + sum_list (map weight_value cws))" using rng by simp
  from pick_choice_cdf [OF lo hi] obtain pre cw post where
    h: "cws = pre @ cw # post" "pick_choice ?r (cdf 0 cws) = Some (cw_name cw)"
       "real (sum_list (map weight_value pre)) \<le> ?r"
       "?r < real (sum_list (map weight_value (pre @ [cw])))"
    by auto
  have firstp: "\<forall>k \<le> length pre. real (sum_list (map weight_value (take k cws))) \<le> ?r"
  proof (intro allI impI)
    fix k assume "k \<le> length pre"
    from sum_take_le [OF this, of "cw # post"] h(1,3)
    show "real (sum_list (map weight_value (take k cws))) \<le> ?r" by simp
  qed
  have act: "weighted_action clusterChoices total_weight rnd n = (cw_name cw, Suc n)"
    using h(2) cc tot by (simp add: weighted_action_def Let_def)
  have mem: "cw_name cw \<in> set (map cw_name cws)" using h(1) by simp
  show ?thesis using h(1,4) firstp act mem by blast
qed

theorem C8_weighted_selection_witness:
  "draws_in_range half
   \<and> 10 \<le> sum_list (map weight_value ten_weights)
   \<and> 0 < sum_list (map weight_value ten_weights)
   \<and> build_choices ten_weights 0 [] []
       = ([\<lparr>choice_cluster = ''A'', choice_numerator = 3\<rparr>,
           \<lparr>choice_cluster = ''B'', choice_numerator = 10\<rparr>], [''A'', ''B''])
   \<and> half 0 10 = 5
   \<and> weighted_action [\<lparr>choice_cluster = ''A'', choice_numerator = 3\<rparr>,
                       \<lparr>choice_cluster = ''B'', choice_numerator = 10\<rparr>] (Some 10) half 0
       = (''B'', 1)
   \<and> (\<exists>pre cw post. ten_weights = pre @ cw # post
         \<and> weighted_action [\<lparr>choice_cluster = ''A'', choice_numerator = 3\<rparr>,
                             \<lparr>choice_cluster = ''B'', choice_numerator = 10\<rparr>] (Some 10) half 0
             = (cw_name cw, Suc 0)
         \<and> half 0 10 < real (sum_list (map weight_value (pre @ [cw]))))
   \<and> 100 \<le> sum_list (map weight_value example_weights)
   \<and> build_choices example_weights 0 [] []
       = ([\<lparr>choice_cluster = ''A'', choice_numerator = 30\<rparr>,
           \<lparr>choice_cluster = ''B'', choice_numerator = 100\<rparr>], [''A'', ''B''])
   \<and> half 0 100 = 50
   \<and> weighted_action [\<lparr>choice_cluster = ''A'', choice_numerator = 30\<rparr>,
                       \<lparr>choice_cluster = ''B'', choice_numerator = 100\<rparr>] None half 0
       = (''B'', 1)
   \<and> (\<exists>pre cw post. example_weights = pre @ cw # post
         \<and> weighted_action [\<lparr>choice_cluster = ''A'', choice_numerator = 30\<rparr>,
                             \<lparr>choice_cluster = ''B'', choice_numerator = 100\<rparr>] None half 0
             = (cw_name cw, Suc 0)
         \<and> half 0 100 < real (sum_list (map weight_value (pre @ [cw]))))"
proof -
  have t10: "(10::nat) = (case Some 10 of Some v \<Rightarrow> v | None \<Rightarrow> 100)"
    and t100: "(100::nat) = (case None of Some v \<Rightarrow> v | None \<Rightarrow> 100)"
    by simp_all
  have a: "10 \<le> sum_list (map weight_value ten_weights)"
    and b: "0 < sum_list (map weight_value ten_weights)"
    and c: "100 \<le> sum_list (map weight_value example_weights)"
    and d: "0 < sum_list (map weight_value example_weights)"
    by (simp_all add: ten_weights_def example_weights_def weight_value_def)
  have e: "build_choices ten_weights 0 [] []
       = ([\<lparr>choice_cluster = ''A'', choice_numerator = 3\<rparr>,
           \<lparr>choice_cluster = ''B'', choice_numerator = 10\<rparr>], [''A'', ''B''])"
    and f: "build_choices example_weights 0 [] []
       = ([\<lparr>choice_cluster = ''A'', choice_numerator = 30\<rparr>,
           \<lparr>choice_cluster = ''B'', choice_numerator = 100\<rparr>], [''A'', ''B''])"
    by (simp_all add: ten_weights_def example_weights_def set_add_def Let_def)
  have g: "half 0 10 = 5" and h: "half 0 100 = 50"
    by (simp_all add: half_def)
  have i: "weighted_action [\<lparr>choice_cluster = ''A'', choice_numerator = 3\<rparr>,
                       \<lparr>choice_cluster = ''B'', choice_numerator = 10\<rparr>] (Some 10) half 0
       = (''B'', 1)"
    and j: "weighted_action [\<lparr>choice_cluster = ''A'', choice_numerator = 30\<rparr>,
                       \<lparr>choice_cluster = ''B'', choice_numerator = 100\<rparr>] None half 0
       = (''B'', 1)"
    by (simp_all add: weighted_action_def effective_total_weight_def half_def Let_def)
  from C8_weighted_selection [OF draws_in_range_half t10 a b e, of 0]
  have k: "\<exists>pre cw post. ten_weights = pre @ cw # post
         \<and> weighted_action [\<lparr>choice_cluster = ''A'', choice_numerator = 3\<rparr>,
                             \<lparr>choice_cluster = ''B'', choice_numerator = 10\<rparr>] (Some 10) half 0
             = (cw_name cw, Suc 0)
         \<and> half 0 10 < real (sum_list (map weight_value (pre @ [cw])))"
    by blast
  from C8_weighted_selection [OF draws_in_range_half t100 c d f, of 0]
  have l: "\<exists>pre cw post. example_weights = pre @ cw # post
         \<and> weighted_action [\<lparr>choice_cluster = ''A'', choice_numerator = 30\<rparr>,
                             \<lparr>choice_cluster = ''B'', choice_numerator = 100\<rparr>] None half 0
             = (cw_name cw, Suc 0)
         \<and> half 0 100 < real (sum_list (map weight_value (pre @ [cw])))"
    by blast
  show ?thesis
    using draws_in_range_half a b c e f g h i j k l by blast
qed

section \<open>Route table resolver: proofs\<close>

lemma legacy_scan_no_domain:
  "\<forall>vh \<in> set vhs. path (target s) \<notin> set (domains vh) \<Longrightarrow>
   legacy_scan e vhs s = Returns (reportResolutionError e ''No matching route found'' s)"
  by (induction vhs) simp_all

lemma legacy_scan_table:
  "clusterRefcounts (state_of (legacy_scan e vhs s)) = clusterRefcounts s"
  by (induction vhs)
     (auto simp: reportResolutionError_def Let_def
        split: option.splits ClusterSpecifier.splits)

text \<open>
  C9. When no virtual host of a received routing table matches the target host name (with
  experimental routing, the domain matcher finds none; without it, no virtual host lists
  the target among its domains), \<open>handleRouteConfig\<close> returns after one call to the
  listener's \<open>onError\<close>, with status \<open>UNAVAILABLE\<close> and the detail "xDS name resolution failed
  for target ...: No matching route found". The routing table is remembered as the latest
  one; nothing else changes, and the reference-count table is the same as before.
\<close>

theorem C9_no_matching_virtual_host:
  assumes "(GRPC_XDS_EXPERIMENTAL_ROUTING e
              \<and> findVirtualHostForDomain (virtual_hosts rc) (path (target s)) = None)
           \<or> (\<not> GRPC_XDS_EXPERIMENTAL_ROUTING e
              \<and> (\<forall>vh \<in> set (virtual_hosts rc). path (target s) \<notin> set (domains vh)))"
  shows "handleRouteConfig e rc s =
           Returns (s\<lparr>latestRouteConfig := Some rc,
                      listener_calls := listener_calls s @
                        [onError \<lparr>code = UNAVAILABLE,
                                  details = ''xDS name resolution failed for target ''
                                            @ uriToString e (target s) @ '': ''
                                            @ ''No matching route found'',
                                  status_metadata = new_Metadata\<rparr>]\<rparr>)
         \<and> clusterRefcounts (state_of (handleRouteConfig e rc s)) = clusterRefcounts s"
proof (cases "GRPC_XDS_EXPERIMENTAL_ROUTING e")
  case True
  with assms show ?thesis
    by (simp add: handleRouteConfig_def reportResolutionError_def Let_def)
next
  case False
  with assms have "\<forall>vh \<in> set (virtual_hosts rc).
      path (target (s\<lparr>latestRouteConfig := Some rc\<rparr>)) \<notin> set (domains vh)"
    by simp
  from legacy_scan_no_domain [OF this, of e] False show ?thesis
    by (simp add: handleRouteConfig_def reportResolutionError_def Let_def)
qed

lemma example_no_host:
  "findVirtualHostForDomain (virtual_hosts other_host_config) ''svc'' = None"
  by (simp add: other_host_config_def findVirtualHostForDomain_def scan_init_def
      domainPatternMatchType_def Let_def)

lemma after_success_example:
  "after_success example_env =
      (new_XdsResolver example_target)
        \<lparr>latestRouteConfig := Some (route_to ''A''),
         clusterRefcounts := [(''A'', \<lparr>inLastConfig = True, refCount = 0\<rparr>)],
         listener_calls :=
           [onSuccessfulResolution
              (XdsClusterManagerLoadBalancingConfig [(''A'', [CdsLoadBalancingConfig ''A''])])
              (Some [(route_predicate (\<lambda>methodName metadata. startsWith methodName '''') [] None,
                      cluster_action ''A'')])]\<rparr>"
    by (simp add: after_success_def rdsWatcher_onValidUpdate_def handleRouteConfig_def
        example_env_def route_to_def new_XdsResolver_def example_target_def any_path_def
        findVirtualHostForDomain_def scan_init_def domainPatternMatchType_def
        getPredicateForMatcher_def case_insensitive_def reconcile_def add_cluster_def
        set_add_def clusterConfigMap_def Let_def)

theorem C9_no_matching_virtual_host_witness:
  "GRPC_XDS_EXPERIMENTAL_ROUTING example_env
   \<and> findVirtualHostForDomain (virtual_hosts other_host_config)
       (path (target (after_success example_env))) = None
   \<and> reported_errors (listener_calls
        (state_of (handleRouteConfig example_env other_host_config (after_success example_env))))
       = [\<lparr>code = UNAVAILABLE,
           details = ''xDS name resolution failed for target xds:svc: No matching route found'',
           status_metadata = new_Metadata\<rparr>]
   \<and> clusterRefcounts
        (state_of (handleRouteConfig example_env other_host_config (after_success example_env)))
       = [(''A'', \<lparr>inLastConfig = True, refCount = 0\<rparr>)]"
proof -
  have a: "GRPC_XDS_EXPERIMENTAL_ROUTING example_env" by (simp add: example_env_def)
  have tg: "target (after_success example_env) = example_target"
    by (simp add: after_success_example new_XdsResolver_def)
  have t: "path (target (after_success example_env)) = ''svc''"
    unfolding tg by (simp add: example_target_def)
  have b: "findVirtualHostForDomain (virtual_hosts other_host_config)
       (path (target (after_success example_env))) = None"
    by (simp only: t example_no_host)
  from a b have h: "(GRPC_XDS_EXPERIMENTAL_ROUTING example_env
              \<and> findVirtualHostForDomain (virtual_hosts other_host_config)
                   (path (target (after_success example_env))) = None)
           \<or> (\<not> GRPC_XDS_EXPERIMENTAL_ROUTING example_env
              \<and> (\<forall>vh \<in> set (virtual_hosts other_host_config).
                    path (target (after_success example_env)) \<notin> set (domains vh)))"
    by blast
  note r = C9_no_matching_virtual_host [OF h]
  have u: "uriToString example_env (target (after_success example_env)) = ''xds:svc''"
    unfolding tg by (simp add: example_target_def example_env_def)
  have l: "reported_errors (listener_calls (after_success example_env)) = []"
    and c: "clusterRefcounts (after_success example_env)
              = [(''A'', \<lparr>inLastConfig = True, refCount = 0\<rparr>)]"
    by (simp_all add: after_success_example)
  have re: "reported_errors (xs @ [onError st]) = reported_errors xs @ [st]" for xs st
    by (induction xs rule: reported_errors.induct) simp_all
  from r u l c re show ?thesis using a b by simp
qed
lemma handleRouteConfig_experimental_flag:
  "GRPC_XDS_EXPERIMENTAL_ROUTING e \<Longrightarrow>
   hasReportedSuccess (state_of (handleRouteConfig e rc s)) = hasReportedSuccess s"
  by (simp add: handleRouteConfig_def reportResolutionError_def Let_def
      split: option.splits sum.splits prod.splits)

lemma after_success_legacy:
  "after_success legacy_env =
      (new_XdsResolver example_target)
        \<lparr>latestRouteConfig := Some (route_to ''A''),
         listener_calls := [onSuccessfulResolution (CdsLoadBalancingConfig ''A'') None],
         hasReportedSuccess := True\<rparr>"
  by (simp add: after_success_def rdsWatcher_onValidUpdate_def handleRouteConfig_def
      legacy_env_def example_env_def route_to_def new_XdsResolver_def example_target_def
      any_path_def Let_def)

text \<open>
  C1 fails on the code when \<open>GRPC_XDS_EXPERIMENTAL_ROUTING\<close> is set. After a route
  configuration has been resolved and reported to the listener as a success,
  \<open>hasReportedSuccess\<close> is still false, and a transient error from the route watch or from
  the listener watch is reported to the listener as a resolution failure. Without the flag
  the same run sets \<open>hasReportedSuccess\<close> and both transient errors leave the resolver as it
  is.
\<close>

theorem C1_transient_error_after_success:
  "list_ex is_success (listener_calls (after_success example_env))
   \<and> \<not> hasReportedSuccess (after_success example_env)
   \<and> reported_errors (listener_calls
        (rdsWatcher_onTransientError example_env transient (after_success example_env)))
       = [\<lparr>code = UNAVAILABLE,
           details = ''xDS name resolution failed for target xds:svc: stream closed'',
           status_metadata = new_Metadata\<rparr>]
   \<and> reported_errors (listener_calls
        (ldsWatcher_onTransientError example_env transient (after_success example_env)))
       = [\<lparr>code = UNAVAILABLE,
           details = ''xDS name resolution failed for target xds:svc: stream closed'',
           status_metadata = new_Metadata\<rparr>]
   \<and> list_ex is_success (listener_calls (after_success legacy_env))
   \<and> hasReportedSuccess (after_success legacy_env)
   \<and> rdsWatcher_onTransientError legacy_env transient (after_success legacy_env)
       = after_success legacy_env
   \<and> ldsWatcher_onTransientError legacy_env transient (after_success legacy_env)
       = after_success legacy_env"
proof -
  have u: "uriToString example_env example_target = ''xds:svc''"
    by (simp add: example_env_def example_target_def)
  have e: "reported_errors (listener_calls
        (onTransientError example_env transient (after_success example_env)))
       = [\<lparr>code = UNAVAILABLE,
           details = ''xDS name resolution failed for target xds:svc: stream closed'',
           status_metadata = new_Metadata\<rparr>]"
    unfolding after_success_example
    by (simp add: onTransientError_def reportResolutionError_def new_XdsResolver_def u
        transient_def)
  have l: "onTransientError legacy_env transient (after_success legacy_env)
             = after_success legacy_env"
    unfolding after_success_legacy by (simp add: onTransientError_def)
  have 1: "list_ex is_success (listener_calls (after_success example_env))"
    and 2: "\<not> hasReportedSuccess (after_success example_env)"
    unfolding after_success_example by (simp_all add: new_XdsResolver_def)
  have 3: "list_ex is_success (listener_calls (after_success legacy_env))"
    and 4: "hasReportedSuccess (after_success legacy_env)"
    unfolding after_success_legacy by simp_all
  show ?thesis
    using e l 1 2 3 4
    by (simp add: rdsWatcher_onTransientError_def ldsWatcher_onTransientError_def)
qed

section \<open>Reference counts: proofs\<close>

lemma map_of_mark_entry:
  "map_of (mark_entry all (nm, rc) t) n =
     (if n = nm \<and> nm \<notin> set all
      then (if refCount rc = 0 then None else Some (rc\<lparr>inLastConfig := False\<rparr>))
      else map_of t n)"
  by (auto simp: mark_entry_def Let_def update_conv' delete_conv')

lemma distinct_mark_entry:
  "distinct (map fst t) \<Longrightarrow> distinct (map fst (mark_entry all ent t))"
  by (cases ent) (auto simp: mark_entry_def Let_def distinct_update distinct_delete)

lemma map_of_fold_mark:
  "distinct (map fst snap) \<Longrightarrow>
   map_of (fold (mark_entry all) snap t) n =
     (case map_of snap n of
        Some rc \<Rightarrow>
          if n \<notin> set all
          then (if refCount rc = 0 then None else Some (rc\<lparr>inLastConfig := False\<rparr>))
          else map_of t n
      | None \<Rightarrow> map_of t n)"
proof (induction snap arbitrary: t)
  case Nil
  then show ?case by simp
next
  case (Cons ent snap)
  obtain nm rc where ent: "ent = (nm, rc)" by (cases ent)
  from Cons.prems ent have d: "distinct (map fst snap)" and nin: "nm \<notin> fst ` set snap"
    by auto
  from nin have none: "map_of snap nm = None" by (simp add: map_of_eq_None_iff)
  show ?case
    using Cons.IH [OF d, of "mark_entry all (nm, rc) t"] none
    by (auto simp: ent map_of_mark_entry split: option.splits)
qed

lemma distinct_fold_mark:
  "distinct (map fst t) \<Longrightarrow> distinct (map fst (fold (mark_entry all) snap t))"
  by (induction snap arbitrary: t) (simp_all add: distinct_mark_entry)

lemma map_of_add_cluster:
  "map_of (add_cluster nm t) n =
     (if n = nm
      then Some (case map_of t nm of
                   Some rc \<Rightarrow> rc\<lparr>inLastConfig := True\<rparr>
                 | None \<Rightarrow> \<lparr>inLastConfig = True, refCount = 0\<rparr>)
      else map_of t n)"
  by (auto simp: add_cluster_def update_conv' split: option.splits)

lemma distinct_add_cluster:
  "distinct (map fst t) \<Longrightarrow> distinct (map fst (add_cluster nm t))"
  by (auto simp: add_cluster_def distinct_update split: option.splits)

lemma map_of_fold_add:
  "map_of (fold add_cluster all t) n =
     (if n \<in> set all
      then Some (case map_of t n of
                   Some rc \<Rightarrow> rc\<lparr>inLastConfig := True\<rparr>
                 | None \<Rightarrow> \<lparr>inLastConfig = True, refCount = 0\<rparr>)
      else map_of t n)"
  by (induction all arbitrary: t) (auto simp: map_of_add_cluster split: option.splits)

lemma distinct_fold_add:
  "distinct (map fst t) \<Longrightarrow> distinct (map fst (fold add_cluster all t))"
  by (induction all arbitrary: t) (simp_all add: distinct_add_cluster)

lemma distinct_reconcile:
  "distinct (map fst tbl) \<Longrightarrow> distinct (map fst (reconcile all tbl))"
  by (simp add: reconcile_def distinct_fold_add distinct_fold_mark)

lemma map_of_reconcile:
  assumes "distinct (map fst tbl)"
  shows "map_of (reconcile all tbl) n =
     (if n \<in> set all
      then Some \<lparr>inLastConfig = True,
                 refCount = (case map_of tbl n of Some rc \<Rightarrow> refCount rc | None \<Rightarrow> 0)\<rparr>
      else (case map_of tbl n of
              Some rc \<Rightarrow> if refCount rc = 0 then None else Some (rc\<lparr>inLastConfig := False\<rparr>)
            | None \<Rightarrow> None))"
  unfolding reconcile_def map_of_fold_add map_of_fold_mark [OF assms]
  by (auto split: option.splits)
lemma table_invariant_iff:
  "table_invariant tbl \<longleftrightarrow>
     distinct (map fst tbl)
     \<and> (\<forall>nm rc. map_of tbl nm = Some rc \<longrightarrow> inLastConfig rc \<or> refCount rc > 0)"
proof (cases "distinct (map fst tbl)")
  case True
  then have "(nm, rc) \<in> set tbl \<longleftrightarrow> map_of tbl nm = Some rc" for nm rc
    by simp
  then have "(\<forall>x \<in> set tbl. case x of (nm, rc) \<Rightarrow> inLastConfig rc \<or> refCount rc > 0)
      \<longleftrightarrow> (\<forall>nm rc. map_of tbl nm = Some rc \<longrightarrow> inLastConfig rc \<or> refCount rc > 0)"
    by fast
  with True show ?thesis by (simp add: table_invariant_def list_all_iff)
next
  case False
  then show ?thesis by (simp add: table_invariant_def)
qed

lemma channel_selector_snoc:
  "channel_selector (evs @ [ev]) cur =
     (case ev of
        onSuccessfulResolution lb sel \<Rightarrow> sel
      | onError st \<Rightarrow> channel_selector evs cur)"
  by (induction evs cur rule: channel_selector.induct) (simp_all split: ResolverEvent.splits)

lemma actions_covered_mono:
  "actions_covered ml ok \<Longrightarrow> (\<And>nm. ok nm \<Longrightarrow> ok' nm) \<Longrightarrow> actions_covered ml ok'"
  unfolding actions_covered_def by fast

lemma actions_covered_append:
  "actions_covered (ml @ [(m, a)]) ok \<longleftrightarrow>
     actions_covered ml ok \<and> (\<forall>rnd n. draws_in_range rnd \<longrightarrow> ok (fst (a rnd n)))"
  unfolding actions_covered_def by auto

lemma weighted_action_covered:
  assumes "draws_in_range rnd"
    and "effective_total_weight total_weight \<le> sum_list (map weight_value cws)"
    and "0 < sum_list (map weight_value cws)"
  shows "fst (weighted_action (cdf 0 cws) total_weight rnd n) \<in> cw_name ` set cws"
proof -
  let ?r = "rnd n (effective_total_weight total_weight)"
  from draw_below_sum [OF assms] have "real 0 \<le> ?r"
    and "?r < real (0 + sum_list (map weight_value cws))" by simp_all
  from pick_choice_cdf [OF this] obtain pre cw post where
    "cws = pre @ cw # post" "pick_choice ?r (cdf 0 cws) = Some (cw_name cw)" by blast
  then show ?thesis by (auto simp: weighted_action_def Let_def)
qed

lemma build_routes_covered:
  assumes "build_routes e rs all0 ml0 = Inr (allc, ml)"
    and "list_all route_validated rs"
    and "actions_covered ml0 (\<lambda>nm. nm \<in> set all0)"
  shows "actions_covered ml (\<lambda>nm. nm \<in> set allc)"
  using assms
proof (induction rs arbitrary: all0 ml0)
  case Nil
  then show ?case by simp
next
  case (Cons r rs)
  from Cons.prems(2) have vr: "route_validated r" and vrs: "list_all route_validated rs"
    by simp_all
  show ?case
  proof (cases "route r")
    case None
    with Cons.prems(1) show ?thesis by simp
  next
    case (Some cs)
    show ?thesis
    proof (cases cs)
      case (cluster_header h)
      with Some Cons.prems(1) have "build_routes e rs all0 ml0 = Inr (allc, ml)" by simp
      from Cons.IH [OF this vrs Cons.prems(3)] show ?thesis .
    next
      case (cluster c)
      with Some Cons.prems(1) obtain m rm where
        b: "build_routes e rs (set_add c all0) (ml0 @ [(rm, cluster_action c)]) = Inr (allc, ml)"
        by (auto split: option.splits sum.splits)
      have "actions_covered (ml0 @ [(rm, cluster_action c)]) (\<lambda>nm. nm \<in> set (set_add c all0))"
        unfolding actions_covered_append
        using actions_covered_mono [OF Cons.prems(3), of "\<lambda>nm. nm \<in> set (set_add c all0)"]
        by (auto simp: set_add_def cluster_action_def)
      from Cons.IH [OF b vrs this] show ?thesis .
    next
      case (weighted_clusters cws total_weight)
      let ?all' = "fold set_add (map cw_name cws) all0"
      from weighted_clusters Some Cons.prems(1) obtain m rm where
        b: "build_routes e rs ?all' (ml0 @ [(rm, weighted_action (cdf 0 cws) total_weight)])
              = Inr (allc, ml)"
        by (auto simp: build_choices_cdf split: option.splits sum.splits)
      from vr Some weighted_clusters have
        w: "effective_total_weight total_weight \<le> sum_list (map weight_value cws)"
           "0 < sum_list (map weight_value cws)"
        by (simp_all add: route_validated_def)
      have sub: "set all0 \<subseteq> set ?all'" and names: "cw_name ` set cws \<subseteq> set ?all'"
        by (auto simp: set_fold_set_add)
      have "actions_covered (ml0 @ [(rm, weighted_action (cdf 0 cws) total_weight)])
              (\<lambda>nm. nm \<in> set ?all')"
        unfolding actions_covered_append
        using actions_covered_mono [OF Cons.prems(3), of "\<lambda>nm. nm \<in> set ?all'"] sub names
          weighted_action_covered [OF _ w]
        by blast
      from Cons.IH [OF b vrs this] show ?thesis .
    qed
  qed
qed

lemma find_in_hosts:
  assumes "findVirtualHostForDomain vhs d = Some vh"
  shows "vh \<in> set vhs"
proof -
  from find_Some_best [OF assms] obtain pre p post where
    "candidates vhs = pre @ (vh, p) # post" by blast
  then have "(vh, p) \<in> set (candidates vhs)" by simp
  then show ?thesis by (auto simp: candidates_def)
qed
lemma key_has_entry: "nm \<in> fst ` set tbl \<longleftrightarrow> (\<exists>rc. map_of tbl nm = Some rc)"
  using map_of_eq_None_iff [of tbl nm] by auto

lemma reconcile_consistent:
  assumes ti: "table_invariant tbl" and cm: "counts_match fl tbl"
  shows "table_invariant (reconcile allc tbl)"
    and "counts_match fl (reconcile allc tbl)"
    and "\<forall>nm \<in> set allc. marked (reconcile allc tbl) nm"
proof -
  from ti have d: "distinct (map fst tbl)" by (simp add: table_invariant_def)
  note mr = map_of_reconcile [OF d, of allc]
  from cm have cnt: "\<And>nm rc. map_of tbl nm = Some rc \<Longrightarrow> refCount rc = int (count_list fl nm)"
    and keys: "set fl \<subseteq> fst ` set tbl"
    by (auto simp: counts_match_def)
  show "table_invariant (reconcile allc tbl)"
    unfolding table_invariant_iff
  proof (intro conjI allI impI)
    show "distinct (map fst (reconcile allc tbl))" using d by (rule distinct_reconcile)
  next
    fix nm rc assume a: "map_of (reconcile allc tbl) nm = Some rc"
    show "inLastConfig rc \<or> 0 < refCount rc"
    proof (cases "nm \<in> set allc")
      case True
      with a mr [of nm] show ?thesis by auto
    next
      case False
      with a mr [of nm] obtain old where o: "map_of tbl nm = Some old" "refCount old \<noteq> 0"
        "rc = old\<lparr>inLastConfig := False\<rparr>"
        by (auto split: option.splits if_splits)
      from cnt [OF o(1)] o(2) have "0 < refCount old" by simp
      with o(3) show ?thesis by simp
    qed
  qed
  show "counts_match fl (reconcile allc tbl)"
    unfolding counts_match_def
  proof (intro conjI allI impI subsetI)
    fix nm assume f: "nm \<in> set fl"
    with keys have "nm \<in> fst ` set tbl" by blast
    then obtain old where o: "map_of tbl nm = Some old"
      unfolding key_has_entry by blast
    from f have "0 < count_list fl nm"
      using count_list_0_iff [of fl nm] by simp
    with cnt [OF o] have "refCount old \<noteq> 0" by simp
    with o mr [of nm] have "\<exists>rc. map_of (reconcile allc tbl) nm = Some rc" by auto
    then show "nm \<in> fst ` set (reconcile allc tbl)" by (simp add: key_has_entry)
  next
    fix nm rc assume a: "map_of (reconcile allc tbl) nm = Some rc"
    show "refCount rc = int (count_list fl nm)"
    proof (cases "map_of tbl nm")
      case None
      then have "nm \<notin> fst ` set tbl" by (simp add: map_of_eq_None_iff)
      with keys have "nm \<notin> set fl" by blast
      then have "count_list fl nm = 0" by simp
      with a mr [of nm] None show ?thesis by (auto split: if_splits)
    next
      case (Some old)
      with a mr [of nm] have "refCount rc = refCount old" by (auto split: if_splits)
      with cnt [OF Some] show ?thesis by simp
    qed
  qed
  show "\<forall>nm \<in> set allc. marked (reconcile allc tbl) nm"
    using mr by (simp add: marked_def)
qed

lemma legacy_scan_latest:
  "latestRouteConfig (state_of (legacy_scan e vhs s)) = latestRouteConfig s"
  by (induction vhs)
     (auto simp: reportResolutionError_def Let_def
        split: option.splits ClusterSpecifier.splits)

lemma legacy_scan_selector:
  "channel_selector (listener_calls (state_of (legacy_scan e vhs s))) None = None
   \<or> channel_selector (listener_calls (state_of (legacy_scan e vhs s))) None
       = channel_selector (listener_calls s) None"
  by (induction vhs)
     (auto simp: reportResolutionError_def channel_selector_snoc Let_def
        split: option.splits ClusterSpecifier.splits)

lemma consistent_frame:
  assumes "consistent fl s"
    and "clusterRefcounts s' = clusterRefcounts s"
    and "channel_selector (listener_calls s') None = None
         \<or> channel_selector (listener_calls s') None = channel_selector (listener_calls s) None"
    and "latest_validated s'"
  shows "consistent fl s'"
  using assms unfolding consistent_def selector_covered_def
  by (auto split: option.splits)

lemma reportResolutionError_consistent:
  assumes c: "consistent fl s"
  shows "consistent fl (reportResolutionError e reason s)"
proof (rule consistent_frame [OF c])
  show "clusterRefcounts (reportResolutionError e reason s) = clusterRefcounts s"
    by (simp add: reportResolutionError_def)
  show "channel_selector (listener_calls (reportResolutionError e reason s)) None = None
        \<or> channel_selector (listener_calls (reportResolutionError e reason s)) None
            = channel_selector (listener_calls s) None"
    by (simp add: reportResolutionError_def channel_selector_snoc)
  show "latest_validated (reportResolutionError e reason s)"
    using c by (simp add: reportResolutionError_def consistent_def latest_validated_def)
qed

lemma handleRouteConfig_consistent:
  assumes c: "consistent fl s" and v: "validated rc"
  shows "consistent fl (state_of (handleRouteConfig e rc s))"
proof -
  let ?s = "s\<lparr>latestRouteConfig := Some rc\<rparr>"
  have lv: "latest_validated ?s" using v by (simp add: latest_validated_def)
  have cs: "consistent fl ?s"
  proof (rule consistent_frame [OF c])
    show "latest_validated ?s" by (rule lv)
  qed simp_all
  show ?thesis
  proof (cases "GRPC_XDS_EXPERIMENTAL_ROUTING e")
    case False
    have "consistent fl (state_of (legacy_scan e (virtual_hosts rc) ?s))"
    proof (rule consistent_frame [OF cs])
      show "clusterRefcounts (state_of (legacy_scan e (virtual_hosts rc) ?s))
              = clusterRefcounts ?s"
        by (rule legacy_scan_table)
      show "channel_selector (listener_calls (state_of (legacy_scan e (virtual_hosts rc) ?s))) None
              = None
            \<or> channel_selector (listener_calls (state_of (legacy_scan e (virtual_hosts rc) ?s))) None
              = channel_selector (listener_calls ?s) None"
        by (rule legacy_scan_selector)
      show "latest_validated (state_of (legacy_scan e (virtual_hosts rc) ?s))"
        using v by (simp add: latest_validated_def legacy_scan_latest)
    qed
    with False show ?thesis by (simp add: handleRouteConfig_def Let_def)
  next
    case True
    show ?thesis
    proof (cases "findVirtualHostForDomain (virtual_hosts rc) (path (target s))")
      case None
      with True reportResolutionError_consistent [OF cs] show ?thesis
        by (simp add: handleRouteConfig_def Let_def)
    next
      case (Some vh)
      show ?thesis
      proof (cases "build_routes e (routes vh) [] []")
        case (Inl err)
        with True Some cs show ?thesis by (simp add: handleRouteConfig_def Let_def)
      next
        case (Inr res)
        obtain allc ml where res: "res = (allc, ml)" by (cases res)
        from find_in_hosts [OF Some] v have "list_all route_validated (routes vh)"
          by (simp add: validated_def list_all_iff)
        from build_routes_covered [OF Inr [unfolded res] this]
        have cov: "actions_covered ml (\<lambda>nm. nm \<in> set allc)"
          by (simp add: actions_covered_def)
        let ?tbl = "reconcile allc (clusterRefcounts s)"
        from c have ti: "table_invariant (clusterRefcounts s)"
          and cm: "counts_match fl (clusterRefcounts s)"
          by (simp_all add: consistent_def)
        note rc = reconcile_consistent [OF ti cm, of allc]
        have "actions_covered ml (marked ?tbl)"
          using actions_covered_mono [OF cov, of "marked ?tbl"] rc(3) by blast
        then have "consistent fl
            (?s\<lparr>clusterRefcounts := ?tbl,
                listener_calls := listener_calls ?s @
                  [onSuccessfulResolution
                     (XdsClusterManagerLoadBalancingConfig (clusterConfigMap ?tbl)) (Some ml)]\<rparr>)"
          using rc(1,2) lv
          by (simp add: consistent_def selector_covered_def channel_selector_snoc
              latest_validated_def)
        with True Some Inr res show ?thesis
          by (simp add: handleRouteConfig_def Let_def)
      qed
    qed
  qed
qed
lemma first_match_in_list:
  "first_match ml methodName md rnd k = Some (action, n) \<Longrightarrow> action \<in> snd ` set ml"
proof (induction ml arbitrary: k)
  case Nil
  then show ?case by simp
next
  case (Cons ma ml)
  obtain m a where ma: "ma = (m, a)" by (cases ma)
  obtain b k' where r: "m methodName md rnd k = (b, k')" by (cases "m methodName md rnd k")
  show ?case
  proof (cases b)
    case True
    with Cons.prems ma r show ?thesis by simp
  next
    case False
    with Cons.prems ma r have "first_match ml methodName md rnd k' = Some (action, n)" by simp
    from Cons.IH [OF this] show ?thesis by simp
  qed
qed

lemma refCluster_consistent:
  assumes c: "consistent fl s" and m: "marked (clusterRefcounts s) nm"
  shows "consistent (fl @ [nm]) (refCluster nm s)"
proof -
  let ?tbl = "clusterRefcounts s"
  from m obtain old where o: "map_of ?tbl nm = Some old" "inLastConfig old"
    by (auto simp: marked_def split: option.splits)
  let ?new = "old\<lparr>refCount := refCount old + 1\<rparr>"
  let ?tbl' = "AList.update nm ?new ?tbl"
  have st: "refCluster nm s = s\<lparr>clusterRefcounts := ?tbl'\<rparr>"
    using o(1) by (simp add: refCluster_def)
  from c have ti: "distinct (map fst ?tbl)"
    and inv: "\<And>k rc. map_of ?tbl k = Some rc \<Longrightarrow> inLastConfig rc \<or> 0 < refCount rc"
    and keys: "set fl \<subseteq> fst ` set ?tbl"
    and cnt: "\<And>k rc. map_of ?tbl k = Some rc \<Longrightarrow> refCount rc = int (count_list fl k)"
    and sel: "selector_covered (listener_calls s) ?tbl"
    and lv: "latest_validated s"
    unfolding consistent_def table_invariant_iff counts_match_def by blast+
  have mo: "map_of ?tbl' k = (if k = nm then Some ?new else map_of ?tbl k)" for k
    by (simp add: update_conv')
  have dk: "fst ` set ?tbl' = insert nm (fst ` set ?tbl)"
    using dom_update [of nm ?new ?tbl] by (simp add: dom_map_of_conv_image_fst)
  have 1: "table_invariant ?tbl'"
    unfolding table_invariant_iff
    using ti inv o(2) by (auto simp: mo distinct_update split: if_splits)
  have k2: "set (fl @ [nm]) \<subseteq> fst ` set ?tbl'"
    unfolding dk using keys by auto
  have c2: "refCount rc = int (count_list (fl @ [nm]) k)" if "map_of ?tbl' k = Some rc" for k rc
  proof (cases "k = nm")
    case True
    with that mo [of k] have "rc = ?new" by simp
    with cnt [OF o(1)] True show ?thesis by simp
  next
    case False
    with that mo [of k] have "map_of ?tbl k = Some rc" by simp
    from cnt [OF this] False show ?thesis by simp
  qed
  have 2: "counts_match (fl @ [nm]) ?tbl'"
    unfolding counts_match_def using k2 c2 by blast
  have mk: "marked ?tbl k \<Longrightarrow> marked ?tbl' k" for k
    using o(2) by (auto simp: marked_def mo split: option.splits)
  have 3: "selector_covered (listener_calls s) ?tbl'"
    using sel actions_covered_mono [of _ "marked ?tbl" "marked ?tbl'"] mk
    unfolding selector_covered_def by (auto split: option.splits)
  show ?thesis
    unfolding st consistent_def using 1 2 3 lv by (simp add: latest_validated_def)
qed

lemma configSelector_consistent:
  assumes c: "consistent fl s"
    and sel: "channel_selector (listener_calls s) None = Some ml"
    and u: "draws_in_range rnd"
    and r: "configSelector ml methodName md rnd s = (res, s')"
  shows "consistent (fl @ (case onCommitted res of Some nm \<Rightarrow> [nm] | None \<Rightarrow> [])) s'"
proof (cases "first_match ml methodName md rnd 0")
  case None
  with r c show ?thesis by (auto simp: configSelector_def)
next
  case (Some an)
  obtain action n where an: "an = (action, n)" by (cases an)
  let ?nm = "fst (action rnd n)"
  from first_match_in_list Some an obtain m where "(m, action) \<in> set ml" by fastforce
  moreover from c sel have "actions_covered ml (marked (clusterRefcounts s))"
    by (simp add: consistent_def selector_covered_def)
  ultimately have "marked (clusterRefcounts s) ?nm"
    using u unfolding actions_covered_def by blast
  from refCluster_consistent [OF c this] r Some an show ?thesis
    by (auto simp: configSelector_def Let_def)
qed

lemma count_list_remove_nth:
  assumes "i < length fl"
  shows "count_list fl k
           = count_list (take i fl @ drop (Suc i) fl) k + (if fl ! i = k then 1 else 0)"
proof -
  have "fl = take i fl @ fl ! i # drop (Suc i) fl"
    using assms by (rule id_take_nth_drop)
  then have "count_list fl k = count_list (take i fl @ fl ! i # drop (Suc i) fl) k" by simp
  then show ?thesis by simp
qed

lemma set_remove_nth_subset: "set (take i fl @ drop (Suc i) fl) \<subseteq> set fl"
  using set_take_subset [of i fl] set_drop_subset [of "Suc i" fl] by auto

lemma unrefCluster_consistent:
  assumes c: "consistent fl s" and i: "i < length fl"
  shows "consistent (take i fl @ drop (Suc i) fl) (state_of (unrefCluster e (fl ! i) s))"
proof -
  let ?nm = "fl ! i" and ?fl' = "take i fl @ drop (Suc i) fl"
  let ?tbl = "clusterRefcounts s"
  from c have ti: "distinct (map fst ?tbl)"
    and inv: "\<And>k rc. map_of ?tbl k = Some rc \<Longrightarrow> inLastConfig rc \<or> 0 < refCount rc"
    and keys: "set fl \<subseteq> fst ` set ?tbl"
    and cnt: "\<And>k rc. map_of ?tbl k = Some rc \<Longrightarrow> refCount rc = int (count_list fl k)"
    and sel: "selector_covered (listener_calls s) ?tbl"
    and lv: "latest_validated s"
    unfolding consistent_def table_invariant_iff counts_match_def by blast+
  from i have "?nm \<in> set fl" by simp
  with keys have "?nm \<in> fst ` set ?tbl" by blast
  then obtain old where o: "map_of ?tbl ?nm = Some old"
    unfolding key_has_entry by blast
  note cl = count_list_remove_nth [OF i]
  let ?new = "old\<lparr>refCount := refCount old - 1\<rparr>"
  have rn: "refCount ?new = int (count_list ?fl' ?nm)"
    using cnt [OF o] cl [of ?nm] by simp
  have cnt': "map_of ?tbl k = Some rc \<Longrightarrow> k \<noteq> ?nm \<Longrightarrow> refCount rc = int (count_list ?fl' k)"
    for k rc using cnt [of k rc] cl [of k] by simp
  show ?thesis
  proof (cases "\<not> inLastConfig ?new \<and> refCount ?new = 0")
    case False
    let ?tbl' = "AList.update ?nm ?new ?tbl"
    have st: "unrefCluster e ?nm s = Returns (s\<lparr>clusterRefcounts := ?tbl'\<rparr>)"
      using o False by (auto simp: unrefCluster_def Let_def)
    have mo: "map_of ?tbl' k = (if k = ?nm then Some ?new else map_of ?tbl k)" for k
      by (simp add: update_conv')
    have dk: "fst ` set ?tbl' = insert ?nm (fst ` set ?tbl)"
      using dom_update [of ?nm ?new ?tbl] by (simp add: dom_map_of_conv_image_fst)
    from False rn have pos: "inLastConfig ?new \<or> 0 < refCount ?new" by auto
    have 1: "table_invariant ?tbl'"
      unfolding table_invariant_iff
      using ti inv pos by (auto simp: mo distinct_update split: if_splits)
    have k2: "set ?fl' \<subseteq> fst ` set ?tbl'"
      unfolding dk using keys set_remove_nth_subset [of i fl] by blast
    have c2: "refCount rc = int (count_list ?fl' k)" if "map_of ?tbl' k = Some rc" for k rc
    proof (cases "k = ?nm")
      case True
      with that mo [of k] have "rc = ?new" by simp
      with rn True show ?thesis by simp
    next
      case False
      with that mo [of k] have "map_of ?tbl k = Some rc" by simp
      from cnt' [OF this False] show ?thesis .
    qed
    have 2: "counts_match ?fl' ?tbl'"
      unfolding counts_match_def using k2 c2 by blast
    have mk: "marked ?tbl k \<Longrightarrow> marked ?tbl' k" for k
      using o by (auto simp: marked_def mo split: option.splits)
    have 3: "selector_covered (listener_calls s) ?tbl'"
      using sel actions_covered_mono [of _ "marked ?tbl" "marked ?tbl'"] mk
      unfolding selector_covered_def by (auto split: option.splits)
    show ?thesis
      unfolding st consistent_def using 1 2 3 lv by (simp add: latest_validated_def)
  next
    case True
    let ?tbl' = "AList.delete ?nm ?tbl"
    let ?s' = "s\<lparr>clusterRefcounts := ?tbl'\<rparr>"
    have st: "unrefCluster e ?nm s =
        (case latestRouteConfig s of
           Some routeConfig \<Rightarrow> handleRouteConfig e routeConfig ?s'
         | None \<Rightarrow> Throws TypeError ?s')"
      using o True by (auto simp: unrefCluster_def Let_def delete_update_same)
    have mo: "map_of ?tbl' k = (if k = ?nm then None else map_of ?tbl k)" for k
      by (simp add: delete_conv')
    have 1: "table_invariant ?tbl'"
      unfolding table_invariant_iff
      using ti inv by (auto simp: mo distinct_delete split: if_splits)
    from True rn have "count_list ?fl' ?nm = 0" by simp
    then have notin: "?nm \<notin> set ?fl'" by (simp add: count_list_0_iff)
    have 2: "counts_match ?fl' ?tbl'"
      unfolding counts_match_def
    proof (intro conjI allI impI subsetI)
      fix k assume k: "k \<in> set ?fl'"
      with notin have "k \<noteq> ?nm" by blast
      moreover from k keys set_remove_nth_subset [of i fl] have "k \<in> fst ` set ?tbl" by blast
      ultimately have "\<exists>rc. map_of ?tbl' k = Some rc"
        unfolding key_has_entry by (simp add: mo)
      then show "k \<in> fst ` set ?tbl'" unfolding key_has_entry .
    next
      fix k rc assume "map_of ?tbl' k = Some rc"
      then have "map_of ?tbl k = Some rc" "k \<noteq> ?nm" by (auto simp: mo split: if_splits)
      then show "refCount rc = int (count_list ?fl' k)" by (rule cnt')
    qed
    from True o have unm: "\<not> marked ?tbl ?nm" by (simp add: marked_def)
    have mk: "marked ?tbl k \<Longrightarrow> marked ?tbl' k" for k
      using unm by (auto simp: marked_def mo split: option.splits)
    have 3: "selector_covered (listener_calls s) ?tbl'"
      using sel actions_covered_mono [of _ "marked ?tbl" "marked ?tbl'"] mk
      unfolding selector_covered_def by (auto split: option.splits)
    have cs': "consistent ?fl' ?s'"
      unfolding consistent_def using 1 2 3 lv by (simp add: latest_validated_def)
    show ?thesis
    proof (cases "latestRouteConfig s")
      case None
      with st cs' show ?thesis by simp
    next
      case (Some routeConfig)
      with lv have "validated routeConfig" by (simp add: latest_validated_def)
      from handleRouteConfig_consistent [OF cs' this, of e] st Some show ?thesis by simp
    qed
  qed
qed
lemma new_resolver_consistent: "consistent [] (new_XdsResolver t)"
  by (simp add: consistent_def new_XdsResolver_def table_invariant_def counts_match_def
      selector_covered_def latest_validated_def)

lemma xds_call_consistent: "consistent fl s \<Longrightarrow> consistent fl (xds_call c s)"
  by (simp add: consistent_def xds_call_def selector_covered_def latest_validated_def)

lemma onTransientError_consistent:
  "consistent fl s \<Longrightarrow> consistent fl (onTransientError e st s)"
  by (simp add: onTransientError_def reportResolutionError_consistent)

lemma ldsWatcher_onValidUpdate_consistent:
  assumes c: "consistent fl s" and v: "step_validated (LdsUpdate u)"
  shows "consistent fl (state_of (ldsWatcher_onValidUpdate e u s))"
proof (cases u)
  case (rds routeConfigName)
  have "consistent fl (s'\<lparr>latestRouteConfigName := Some routeConfigName\<rparr>)"
    if "consistent fl s'" for s'
    using that by (simp add: consistent_def selector_covered_def latest_validated_def)
  with c rds show ?thesis
    by (auto simp: Let_def xds_call_consistent split: option.splits)
next
  case (route_config routeConfig)
  with v have vr: "validated routeConfig" by simp
  have "consistent fl (case latestRouteConfigName s of
                  Some old \<Rightarrow> if old \<noteq> '''' then xds_call (removeRouteWatcher old) s else s
                | None \<Rightarrow> s)"
    using c by (simp add: xds_call_consistent split: option.splits)
  from handleRouteConfig_consistent [OF this vr, of e] route_config show ?thesis
    by (simp add: Let_def)
next
  case other_route_specifier
  with c show ?thesis by simp
qed

lemma apply_step_consistent:
  assumes c: "consistent (in_flight w) (resolver w)" and v: "step_validated st"
  shows "consistent (in_flight (apply_step e st w)) (resolver (apply_step e st w))"
proof (cases st)
  case (LdsUpdate u)
  with ldsWatcher_onValidUpdate_consistent [OF c, of u e] v show ?thesis by simp
next
  case (LdsTransientError status)
  with onTransientError_consistent [OF c] show ?thesis
    by (simp add: ldsWatcher_onTransientError_def)
next
  case LdsDoesNotExist
  with reportResolutionError_consistent [OF c] show ?thesis
    by (simp add: ldsWatcher_onResourceDoesNotExist_def)
next
  case (RdsUpdate routeConfig)
  with v have "validated routeConfig" by simp
  from handleRouteConfig_consistent [OF c this, of e] RdsUpdate show ?thesis
    by (simp add: rdsWatcher_onValidUpdate_def)
next
  case (RdsTransientError status)
  with onTransientError_consistent [OF c] show ?thesis
    by (simp add: rdsWatcher_onTransientError_def)
next
  case RdsDoesNotExist
  with reportResolutionError_consistent [OF c] show ?thesis
    by (simp add: rdsWatcher_onResourceDoesNotExist_def)
next
  case (SelectConfig methodName md rnd)
  with v have u: "draws_in_range rnd" by simp
  show ?thesis
  proof (cases "channel_selector (listener_calls (resolver w)) None")
    case None
    with SelectConfig c show ?thesis by simp
  next
    case (Some ml)
    obtain res s' where r: "configSelector ml methodName md rnd (resolver w) = (res, s')"
      by (cases "configSelector ml methodName md rnd (resolver w)")
    from configSelector_consistent [OF c Some u r] SelectConfig Some r show ?thesis by simp
  qed
next
  case (Commit i)
  show ?thesis
  proof (cases "i < length (in_flight w)")
    case True
    from unrefCluster_consistent [OF c True, of e] Commit True show ?thesis by simp
  next
    case False
    with Commit c show ?thesis by simp
  qed
qed

lemma exec_consistent:
  "consistent (in_flight w) (resolver w) \<Longrightarrow> list_all step_validated steps \<Longrightarrow>
   consistent (in_flight (exec e steps w)) (resolver (exec e steps w))"
  unfolding exec_def
proof (induction steps arbitrary: w)
  case Nil
  then show ?case by simp
next
  case (Cons st steps)
  from Cons.prems(2) have v: "step_validated st" and vs: "list_all step_validated steps"
    by simp_all
  from Cons.IH [OF apply_step_consistent [OF Cons.prems(1) v] vs] show ?case by simp
qed
lemmas run_defs =
  exec_def new_world_def new_XdsResolver_def example_env_def example_target_def
  underweight_config_def route_to_def any_path_def rdsWatcher_onValidUpdate_def
  handleRouteConfig_def findVirtualHostForDomain_def scan_init_def domainPatternMatchType_def
  getPredicateForMatcher_def case_insensitive_def reconcile_def mark_entry_def add_cluster_def
  set_add_def clusterConfigMap_def Let_def configSelector_def route_predicate_def
  runtimeFractionHandler_def startsWith_def weighted_action_def effective_total_weight_def
  half_def refCluster_def unrefCluster_def cluster_action_def

lemma refCluster_absent: "map_of (clusterRefcounts s) c = None \<Longrightarrow> refCluster c s = s"
  by (simp add: refCluster_def)

lemma unrefCluster_absent:
  "map_of (clusterRefcounts s) c = None \<Longrightarrow> unrefCluster e c s = Returns s"
  by (simp add: unrefCluster_def)

lemma weighted_fall_through:
  "pick_choice (rnd n (effective_total_weight total_weight)) clusterChoices = None \<Longrightarrow>
   weighted_action clusterChoices total_weight rnd n = ('''', Suc n)"
  by (simp add: weighted_action_def Let_def)

text \<open>
  C10 as stated fails in its second half: the selection of the run
  \<open>fall_through_commit_run\<close> falls through to the empty name, counts nothing and leaves
  its commit callback in flight; a cluster with the empty name enters the table before the
  commit, and the commit takes its count to \<open>-1\<close>.
\<close>

theorem C10_fall_through_commit_counterexample:
  "in_flight (exec example_env (take 2 fall_through_commit_run) (new_world example_target)) = ['''']
   \<and> clusterRefcounts
        (resolver (exec example_env (take 2 fall_through_commit_run) (new_world example_target)))
       = [(''A'', \<lparr>inLastConfig = True, refCount = 0\<rparr>)]
   \<and> clusterRefcounts
        (resolver (exec example_env fall_through_commit_run (new_world example_target)))
       = [('''', \<lparr>inLastConfig = True, refCount = - 1\<rparr>)]"
  by (simp add: fall_through_commit_run_def run_defs)

text \<open>
  C10, amended. For a cluster name with no entry in the reference-count table,
  \<open>refCluster\<close> returns the resolver unchanged and \<open>unrefCluster\<close> returns at once with the
  resolver unchanged: no entry is created, no count changes and the last routing table is
  not applied again. So a selection whose action yields such a name leaves the resolver as
  it was and hands out a commit callback for that name. In particular a weighted action
  that runs off the end of its choices yields the empty name, and as long as the table has
  no entry under the empty name, neither the selection nor its commit changes anything.
\<close>

theorem C10_absent_cluster_is_noop:
  assumes "map_of (clusterRefcounts s) c = None"
  shows "refCluster c s = s
         \<and> unrefCluster e c s = Returns s
         \<and> (\<forall>matchList methodName md rnd action n.
               first_match matchList methodName md rnd 0 = Some (action, n)
               \<and> fst (action rnd n) = c \<longrightarrow>
               configSelector matchList methodName md rnd s
                 = (\<lparr>pickInformation_cluster = c, selection_status = OK, onCommitted = Some c\<rparr>, s))
         \<and> (\<forall>matchList methodName md rnd clusterChoices total_weight n.
               c = ''''
               \<and> first_match matchList methodName md rnd 0
                    = Some (weighted_action clusterChoices total_weight, n)
               \<and> pick_choice (rnd n (effective_total_weight total_weight)) clusterChoices = None
               \<longrightarrow>
               configSelector matchList methodName md rnd s
                 = (\<lparr>pickInformation_cluster = '''', selection_status = OK, onCommitted = Some ''''\<rparr>, s)
               \<and> unrefCluster e '''' s = Returns s)"
proof (intro conjI allI impI)
  show "refCluster c s = s" using assms by (rule refCluster_absent)
  show "unrefCluster e c s = Returns s" using assms by (rule unrefCluster_absent)
next
  fix matchList methodName md rnd and action :: RouteAction and n
  assume "first_match matchList methodName md rnd 0 = Some (action, n) \<and> fst (action rnd n) = c"
  then show "configSelector matchList methodName md rnd s
                 = (\<lparr>pickInformation_cluster = c, selection_status = OK, onCommitted = Some c\<rparr>, s)"
    using refCluster_absent [OF assms] by (auto simp: configSelector_def Let_def)
next
  fix matchList methodName md rnd clusterChoices total_weight n
  assume h: "c = ''''
               \<and> first_match matchList methodName md rnd 0
                    = Some (weighted_action clusterChoices total_weight, n)
               \<and> pick_choice (rnd n (effective_total_weight total_weight)) clusterChoices = None"
  then have "fst (weighted_action clusterChoices total_weight rnd n) = ''''"
    using weighted_fall_through by simp
  with h refCluster_absent [OF assms]
  show "configSelector matchList methodName md rnd s
          = (\<lparr>pickInformation_cluster = '''', selection_status = OK, onCommitted = Some ''''\<rparr>, s)"
    by (simp add: configSelector_def Let_def)
  from h unrefCluster_absent [OF assms] show "unrefCluster e '''' s = Returns s" by simp
qed

theorem C10_absent_cluster_is_noop_witness:
  "map_of (clusterRefcounts (after_success example_env)) '''' = None
   \<and> first_match fall_through_list ''/pkg.Service/Method'' new_Metadata half 0
       = Some (weighted_action [\<lparr>choice_cluster = ''A'', choice_numerator = 10\<rparr>] (Some 100), 0)
   \<and> pick_choice (half 0 (effective_total_weight (Some 100)))
        [\<lparr>choice_cluster = ''A'', choice_numerator = 10\<rparr>] = None
   \<and> configSelector fall_through_list ''/pkg.Service/Method'' new_Metadata half
        (after_success example_env)
       = (\<lparr>pickInformation_cluster = '''', selection_status = OK, onCommitted = Some ''''\<rparr>,
          after_success example_env)
   \<and> unrefCluster example_env '''' (after_success example_env)
       = Returns (after_success example_env)
   \<and> refCluster '''' (after_success example_env) = after_success example_env"
proof -
  have a: "map_of (clusterRefcounts (after_success example_env)) '''' = None"
    by (simp add: after_success_example)
  have b: "first_match fall_through_list ''/pkg.Service/Method'' new_Metadata half 0
       = Some (weighted_action [\<lparr>choice_cluster = ''A'', choice_numerator = 10\<rparr>] (Some 100), 0)"
    by (simp add: fall_through_list_def)
  have c: "pick_choice (half 0 (effective_total_weight (Some 100)))
        [\<lparr>choice_cluster = ''A'', choice_numerator = 10\<rparr>] = None"
    by (simp add: half_def effective_total_weight_def)
  from C10_absent_cluster_is_noop [OF a, of example_env] b c
  show ?thesis using a by blast
qed

lemma fall_through_table:
  "clusterRefcounts (resolver (exec example_env fall_through_run (new_world example_target)))
     = [('''', \<lparr>inLastConfig = False, refCount = - 1\<rparr>),
        (''B'', \<lparr>inLastConfig = True, refCount = 0\<rparr>)]"
  by (simp add: fall_through_run_def run_defs)

text \<open>
  C2 as stated fails: after the run \<open>fall_through_run\<close> the table holds an entry under the
  empty name whose flag is false and whose count is \<open>-1\<close>.
\<close>

theorem C2_table_invariant_counterexample:
  "\<not> table_invariant
        (clusterRefcounts (resolver (exec example_env fall_through_run (new_world example_target))))"
  by (simp add: fall_through_table table_invariant_def)

lemma in_flight_table:
  "clusterRefcounts (resolver (exec example_env in_flight_run (new_world example_target)))
     = [(''A'', \<lparr>inLastConfig = False, refCount = 1\<rparr>),
        (''B'', \<lparr>inLastConfig = True, refCount = 0\<rparr>)]"
  by (simp add: in_flight_run_def run_defs)

lemma committed_table:
  "clusterRefcounts
     (resolver (exec example_env (in_flight_run @ [Commit 0]) (new_world example_target)))
     = [(''B'', \<lparr>inLastConfig = True, refCount = 0\<rparr>)]"
  by (simp add: in_flight_run_def run_defs)

lemma in_flight_run_validated:
  "list_all step_validated in_flight_run" "list_all step_validated (in_flight_run @ [Commit 0])"
  by (simp_all add: in_flight_run_def validated_def route_to_def route_validated_def
      draws_in_range_def half_def)

text \<open>
  C2, amended. Start from a new resolver and let route configurations, watcher errors,
  selections through the channel's current selector and commits of selections in flight
  arrive in any order, where every route configuration is one in which no weighted-cluster
  action can run off the end of its choices and every \<open>Math.random()\<close> lies in \<open>[0, 1)\<close>
  (so that its product with a whole number \<open>c\<close> lies in \<open>[0, c)\<close>, and is 0 for \<open>c = 0\<close>).
  Then after every step the table has one entry per name, and every entry has its
  \<open>inLastConfig\<close> flag set or a \<open>refCount\<close> greater than 0: an entry whose flag is false
  and whose count is 0 does not survive the step, be it a reconciliation or a commit. The
  count of an entry is the number of selections of its cluster that have not committed,
  and each of those clusters has an entry.
\<close>

theorem C2_table_invariant:
  assumes "list_all step_validated steps"
  shows "table_invariant (clusterRefcounts (resolver (exec e steps (new_world t))))
         \<and> (\<forall>nm refCnt.
               map_of (clusterRefcounts (resolver (exec e steps (new_world t)))) nm = Some refCnt
               \<longrightarrow> (inLastConfig refCnt \<or> refCount refCnt > 0)
                   \<and> refCount refCnt
                       = int (count_list (in_flight (exec e steps (new_world t))) nm))
         \<and> set (in_flight (exec e steps (new_world t)))
             \<subseteq> fst ` set (clusterRefcounts (resolver (exec e steps (new_world t))))"
proof -
  have "consistent (in_flight (new_world t)) (resolver (new_world t))"
    by (simp add: new_world_def new_resolver_consistent)
  from exec_consistent [OF this assms, of e]
  show ?thesis
    unfolding consistent_def counts_match_def table_invariant_iff by blast
qed

theorem C2_table_invariant_witness:
  "list_all step_validated in_flight_run
   \<and> list_all step_validated (in_flight_run @ [Commit 0])
   \<and> clusterRefcounts (resolver (exec example_env in_flight_run (new_world example_target)))
       = [(''A'', \<lparr>inLastConfig = False, refCount = 1\<rparr>),
          (''B'', \<lparr>inLastConfig = True, refCount = 0\<rparr>)]
   \<and> table_invariant
        [(''A'', \<lparr>inLastConfig = False, refCount = 1\<rparr>),
         (''B'', \<lparr>inLastConfig = True, refCount = 0\<rparr>)]
   \<and> clusterRefcounts
        (resolver (exec example_env (in_flight_run @ [Commit 0]) (new_world example_target)))
       = [(''B'', \<lparr>inLastConfig = True, refCount = 0\<rparr>)]
   \<and> table_invariant [(''B'', \<lparr>inLastConfig = True, refCount = 0\<rparr>)]"
  using C2_table_invariant [OF in_flight_run_validated(1), of example_env example_target]
    C2_table_invariant [OF in_flight_run_validated(2), of example_env example_target]
    in_flight_run_validated
  unfolding in_flight_table committed_table by blast

end
